theory Spec2Isabelle
  imports Main
begin

section \<open>Overview\<close>

text \<open>
  \<^verbatim>\<open>src/assistant/utils.py\<close> formats search results for a research assistant.
  \<^verbatim>\<open>deduplicate_and_format_sources\<close> flattens one response or a list of responses,
  keeps the first record for every url, and renders the records as a text block, with
  an optional raw-content field cut to a character limit; \<^verbatim>\<open>format_sources\<close> renders a
  bullet list. Both are embedded here as functions on Python values that return the
  lines printed together with the string returned or the exception raised. The
  functions \<^verbatim>\<open>read_pdf\<close> and \<^verbatim>\<open>arxiv_search\<close> wrap external libraries and are not
  modelled.
\<close>

section \<open>Python values\<close>

text \<open>
  The functions of \<^verbatim>\<open>src/assistant/utils.py\<close> are dynamically typed: they inspect
  the shape of their argument with \<^verbatim>\<open>isinstance\<close>, subscript it, iterate over it and
  format it. The values they can meet are modelled by one datatype: \<^verbatim>\<open>None\<close>,
  integers, strings, lists, and dictionaries with string keys (an association list in
  insertion order, read by its first entry for a key). A string is a list of code
  points below 256. Floats, booleans, tuples and user-defined classes are outside the
  model, and so are the resource limits of an interpreter (memory, recursion depth).
  Standard output is taken to encode every string.
\<close>

datatype pyval =
    PNone
  | PInt int
  | PStr string
  | PList "pyval list"
  | PDict "(string \<times> pyval) list"

text \<open>The exceptions the modelled code can raise.\<close>

datatype error = ValueError | KeyError | TypeError | AttributeError

subsection \<open>Subscripting, iteration, hashing, length\<close>

text \<open>\<^verbatim>\<open>v[k]\<close> for a string key \<^verbatim>\<open>k\<close>: a dictionary looks the key up and raises
  \<^verbatim>\<open>KeyError\<close> when it is missing; a list or a string wants an integer index and
  \<^verbatim>\<open>None\<close> and integers are not subscriptable: \<^verbatim>\<open>TypeError\<close>.\<close>

fun py_getitem :: "pyval \<Rightarrow> string \<Rightarrow> error + pyval" where
  "py_getitem (PDict kvs) k = (case map_of kvs k of None \<Rightarrow> Inl KeyError | Some v \<Rightarrow> Inr v)"
| "py_getitem _ k = Inl TypeError"

text \<open>\<^verbatim>\<open>v.get(k, d)\<close>: only dictionaries have the method.\<close>

fun py_get :: "pyval \<Rightarrow> string \<Rightarrow> pyval \<Rightarrow> error + pyval" where
  "py_get (PDict kvs) k d = (case map_of kvs k of None \<Rightarrow> Inr d | Some v \<Rightarrow> Inr v)"
| "py_get _ k d = Inl AttributeError"

text \<open>\<^verbatim>\<open>k in v\<close> for a dictionary \<^verbatim>\<open>v\<close>.\<close>

definition dict_contains :: "(string \<times> pyval) list \<Rightarrow> string \<Rightarrow> bool" where
  "dict_contains kvs k = (map_of kvs k \<noteq> None)"

text \<open>The elements \<^verbatim>\<open>for x in v\<close> and \<^verbatim>\<open>list.extend(v)\<close> run through: the elements of a
  list, the keys of a dictionary, the one-character strings of a string;
  \<^verbatim>\<open>None\<close> and integers are not iterable.\<close>

fun py_iter :: "pyval \<Rightarrow> error + pyval list" where
  "py_iter (PList xs) = Inr xs"
| "py_iter (PDict kvs) = Inr (map (\<lambda>kv. PStr (fst kv)) kvs)"
| "py_iter (PStr s) = Inr (map (\<lambda>c. PStr [c]) s)"
| "py_iter _ = Inl TypeError"

text \<open>Lists and dictionaries are unhashable: using one as a dictionary key raises
  \<^verbatim>\<open>TypeError\<close>.\<close>

fun hashable :: "pyval \<Rightarrow> bool" where
  "hashable (PList _) = False"
| "hashable (PDict _) = False"
| "hashable _ = True"

fun py_len :: "pyval \<Rightarrow> error + int" where
  "py_len (PStr s) = Inr (int (length s))"
| "py_len (PList xs) = Inr (int (length xs))"
| "py_len (PDict kvs) = Inr (int (length kvs))"
| "py_len _ = Inl TypeError"

subsection \<open>Strings\<close>

text \<open>\<^verbatim>\<open>s[:k]\<close>: a negative stop counts from the end, and a stop beyond either end is
  clipped.\<close>

definition py_slice_to :: "'a list \<Rightarrow> int \<Rightarrow> 'a list" where
  "py_slice_to s k = (if 0 \<le> k then take (nat k) s else take (length s - nat (- k)) s)"

text \<open>\<^verbatim>\<open>sep.join(xs)\<close>.\<close>

fun py_join :: "string \<Rightarrow> string list \<Rightarrow> string" where
  "py_join sep [] = []"
| "py_join sep [x] = x"
| "py_join sep (x # y # ys) = x @ sep @ py_join sep (y # ys)"

text \<open>\<^verbatim>\<open>str.isspace\<close> on one code point below 256: the ASCII white space
  \<^verbatim>\<open>\t \n \v \f \r\<close> and the space, the separators \<^verbatim>\<open>0x1c\<close> to \<^verbatim>\<open>0x1f\<close>,
  \<^verbatim>\<open>0x85\<close> and the no-break space \<^verbatim>\<open>0xa0\<close>.\<close>

definition py_isspace :: "char \<Rightarrow> bool" where
  "py_isspace c =
     (let n = (of_char c :: nat)
      in (9 \<le> n \<and> n \<le> 13) \<or> (28 \<le> n \<and> n \<le> 32) \<or> n = 133 \<or> n = 160)"

text \<open>\<^verbatim>\<open>s.strip()\<close>: white space is removed at both ends.\<close>

definition py_strip :: "string \<Rightarrow> string" where
  "py_strip s = rev (dropWhile py_isspace (rev (dropWhile py_isspace s)))"

text \<open>\<^verbatim>\<open>str(n)\<close> for an integer: decimal digits, with a minus sign. CPython (3.11 and
  later, and the security releases of 3.7 to 3.10) refuses to convert an integer of
  more than \<^verbatim>\<open>sys.int_max_str_digits\<close> digits, 4300 unless the limit has been changed,
  and raises \<^verbatim>\<open>ValueError\<close>; the sign does not count.\<close>

fun str_of_nat :: "nat \<Rightarrow> string" where
  "str_of_nat n =
     (if n < 10 then [''0123456789'' ! n]
      else str_of_nat (n div 10) @ [''0123456789'' ! (n mod 10)])"

declare str_of_nat.simps [simp del]

definition int_max_str_digits :: nat where
  "int_max_str_digits = 4300"

definition str_of_int :: "int \<Rightarrow> error + string" where
  "str_of_int i =
     (let digits = str_of_nat (nat \<bar>i\<bar>)
      in if length digits > int_max_str_digits then Inl ValueError
         else Inr (if i < 0 then ''-'' @ digits else digits))"

text \<open>\<^verbatim>\<open>repr(s)\<close> for a string: single quotes, unless the string has a single quote and
  no double quote; the backslash and the chosen quote are escaped, tab, newline and
  carriage return are written \<^verbatim>\<open>\t \n \r\<close>, and every other non-printable code point
  as \<^verbatim>\<open>\xNN\<close>.\<close>

definition py_isprintable :: "char \<Rightarrow> bool" where
  "py_isprintable c =
     (let n = (of_char c :: nat)
      in (32 \<le> n \<and> n \<le> 126) \<or> (161 \<le> n \<and> n \<noteq> 173))"

definition hex2 :: "nat \<Rightarrow> string" where
  "hex2 n = [''0123456789abcdef'' ! (n div 16), ''0123456789abcdef'' ! (n mod 16)]"

definition repr_char :: "char \<Rightarrow> char \<Rightarrow> string" where
  "repr_char q c =
     (if c = q \<or> c = CHR 0x5C then [CHR 0x5C, c]
      else if c = CHR 0x09 then [CHR 0x5C, CHR ''t'']
      else if c = CHR 0x0A then [CHR 0x5C, CHR ''n'']
      else if c = CHR 0x0D then [CHR 0x5C, CHR ''r'']
      else if \<not> py_isprintable c then [CHR 0x5C, CHR ''x''] @ hex2 (of_char c)
      else [c])"

definition repr_str :: "string \<Rightarrow> string" where
  "repr_str s =
     (let q = (if CHR 0x27 \<in> set s \<and> CHR 0x22 \<notin> set s then CHR 0x22 else CHR 0x27)
      in [q] @ concat (map (repr_char q) s) @ [q])"

text \<open>The results of a sequence of computations, or the exception of the first that
  raises.\<close>

fun first_error :: "(error + 'a) list \<Rightarrow> error + 'a list" where
  "first_error [] = Inr []"
| "first_error (x # xs) =
     (case x of
        Inl e \<Rightarrow> Inl e
      | Inr v \<Rightarrow> (case first_error xs of Inl e \<Rightarrow> Inl e | Inr vs \<Rightarrow> Inr (v # vs)))"

text \<open>\<^verbatim>\<open>repr(v)\<close>, and \<^verbatim>\<open>str(v)\<close> as an f-string field \<^verbatim>\<open>{v}\<close> formats it: a
  string stands for itself, every other value is written as \<^verbatim>\<open>repr\<close> writes it.
  The items of a container are written from left to right, and an integer among them
  that has too many digits raises.\<close>

fun py_repr :: "pyval \<Rightarrow> error + string" where
  "py_repr PNone = Inr ''None''"
| "py_repr (PInt i) = str_of_int i"
| "py_repr (PStr s) = Inr (repr_str s)"
| "py_repr (PList xs) =
     (case first_error (map py_repr xs) of
        Inl e \<Rightarrow> Inl e
      | Inr items \<Rightarrow> Inr (''['' @ py_join '', '' items @ '']''))"
| "py_repr (PDict kvs) =
     (case first_error
             (map (\<lambda>kv. case py_repr (snd kv) of
                          Inl e \<Rightarrow> Inl e
                        | Inr val \<Rightarrow> Inr (repr_str (fst kv) @ '': '' @ val)) kvs) of
        Inl e \<Rightarrow> Inl e
      | Inr items \<Rightarrow> Inr (''{'' @ py_join '', '' items @ ''}''))"

fun py_str :: "pyval \<Rightarrow> error + string" where
  "py_str (PStr s) = Inr s"
| "py_str v = py_repr v"

text \<open>A replacement field \<^verbatim>\<open>{source['k']}\<close> of an f-string: the subscript is evaluated
  and its value formatted before the next field is looked at.\<close>

definition format_item :: "pyval \<Rightarrow> string \<Rightarrow> error + string" where
  "format_item source k =
     (case py_getitem source k of
        Inl e \<Rightarrow> Inl e
      | Inr v \<Rightarrow> py_str v)"

section \<open>The functions of \<^verbatim>\<open>utils.py\<close>\<close>

subsection \<open>\<^verbatim>\<open>deduplicate_and_format_sources\<close>\<close>

text \<open>Lines 33 to 43, the list branch: \<^verbatim>\<open>sources_list\<close> is extended by the
  \<^verbatim>\<open>results\<close> of a response that is a dictionary with that key, and by the response
  itself otherwise.\<close>

definition extend_with :: "pyval \<Rightarrow> error + pyval list" where
  "extend_with response =
     (case response of
        PDict kvs \<Rightarrow>
          (if dict_contains kvs ''results''
           then (case py_getitem response ''results'' of
                   Inl e \<Rightarrow> Inl e
                 | Inr res \<Rightarrow> py_iter res)
           else py_iter response)
      | _ \<Rightarrow> py_iter response)"

fun collect_sources :: "pyval list \<Rightarrow> pyval list \<Rightarrow> error + pyval list" where
  "collect_sources [] sources_list = Inr sources_list"
| "collect_sources (response # rest) sources_list =
     (case extend_with response of
        Inl e \<Rightarrow> Inl e
      | Inr items \<Rightarrow> collect_sources rest (sources_list @ items))"

text \<open>Lines 33 to 43: the value bound to \<^verbatim>\<open>sources_list\<close>. In the dictionary branch
  it is whatever the key \<^verbatim>\<open>results\<close> holds.\<close>

definition sources_list_of :: "pyval \<Rightarrow> error + pyval" where
  "sources_list_of search_response =
     (case search_response of
        PDict kvs \<Rightarrow> py_getitem search_response ''results''
      | PList responses \<Rightarrow>
          (case collect_sources responses [] of
             Inl e \<Rightarrow> Inl e
           | Inr sources_list \<Rightarrow> Inr (PList sources_list))
      | _ \<Rightarrow> Inl ValueError)"

text \<open>Lines 46 to 49: \<^verbatim>\<open>unique_sources\<close> is a dictionary from the url to the first
  source that has it, kept here in insertion order as Python keeps it. The membership
  test hashes the url.\<close>

fun dedup_loop :: "pyval list \<Rightarrow> (pyval \<times> pyval) list \<Rightarrow> error + (pyval \<times> pyval) list" where
  "dedup_loop [] unique_sources = Inr unique_sources"
| "dedup_loop (source # rest) unique_sources =
     (case py_getitem source ''url'' of
        Inl e \<Rightarrow> Inl e
      | Inr url \<Rightarrow>
          if \<not> hashable url then Inl TypeError
          else if map_of unique_sources url = None
          then dedup_loop rest (unique_sources @ [(url, source)])
          else dedup_loop rest unique_sources)"

text \<open>Lines 33 to 49 together: \<^verbatim>\<open>unique_sources.values()\<close>.\<close>

definition unique_sources_of :: "pyval \<Rightarrow> error + pyval list" where
  "unique_sources_of search_response =
     (case sources_list_of search_response of
        Inl e \<Rightarrow> Inl e
      | Inr sources_list \<Rightarrow>
          (case py_iter sources_list of
             Inl e \<Rightarrow> Inl e
           | Inr sources \<Rightarrow>
               (case dedup_loop sources [] of
                  Inl e \<Rightarrow> Inl e
                | Inr unique_sources \<Rightarrow> Inr (map snd unique_sources))))"

text \<open>Line 66: the raw content cut to the character limit. Slicing a list gives a
  list, to which the marker string cannot be added; a dictionary cannot be sliced (a
  \<^verbatim>\<open>TypeError\<close> up to Python 3.11; from 3.12 on, where a slice is hashable, the failed
  lookup is a \<^verbatim>\<open>KeyError\<close>). The token budget is an integer.\<close>

definition truncated :: "pyval \<Rightarrow> int \<Rightarrow> error + pyval" where
  "truncated raw_content char_limit =
     (case raw_content of
        PStr s \<Rightarrow> Inr (PStr (py_slice_to s char_limit @ ''... [truncated]''))
      | _ \<Rightarrow> Inl TypeError)"

text \<open>Lines 65 and 66.\<close>

definition cut_to_limit :: "pyval \<Rightarrow> int \<Rightarrow> error + pyval" where
  "cut_to_limit raw_content char_limit =
     (case py_len raw_content of
        Inl e \<Rightarrow> Inl e
      | Inr n \<Rightarrow> if n > char_limit then truncated raw_content char_limit else Inr raw_content)"

text \<open>Lines 59 to 66: the lines printed, and the exception or the raw content to be
  shown. The warning is printed only when the field is there and is \<^verbatim>\<open>None\<close>.\<close>

definition limited_raw_content :: "int \<Rightarrow> pyval \<Rightarrow> string list \<times> (error + pyval)" where
  "limited_raw_content max_tokens_per_source source =
     (let char_limit = max_tokens_per_source * 4
      in case py_get source ''raw_content'' (PStr []) of
           Inl e \<Rightarrow> ([], Inl e)
         | Inr got \<Rightarrow>
             if got = PNone
             then (case format_item source ''url'' of
                     Inl e \<Rightarrow> ([], Inl e)
                   | Inr url \<Rightarrow>
                       ([''Warning: No raw_content found for source '' @ url],
                        cut_to_limit (PStr []) char_limit))
             else ([], cut_to_limit got char_limit))"

text \<open>Line 67: the budget is formatted before the raw content.\<close>

definition raw_content_line :: "int \<Rightarrow> pyval \<Rightarrow> error + string" where
  "raw_content_line max_tokens_per_source raw_content =
     (case str_of_int max_tokens_per_source of
        Inl e \<Rightarrow> Inl e
      | Inr budget \<Rightarrow>
          (case py_str raw_content of
             Inl e \<Rightarrow> Inl e
           | Inr raw \<Rightarrow>
               Inr (''Full source content limited to '' @ budget @ '' tokens: '' @ raw
                    @ ''\<newline>\<newline>'')))"

text \<open>Lines 54 to 67, the body of the formatting loop for one source: the lines it
  prints, and the exception it raises or the text it appends to \<^verbatim>\<open>formatted_text\<close>.
  Lines 54 to 56 each look one field up and format it, in this order.\<close>

definition format_source :: "int \<Rightarrow> bool \<Rightarrow> pyval \<Rightarrow> string list \<times> (error + string)" where
  "format_source max_tokens_per_source include_raw_content source =
     (case format_item source ''title'' of
        Inl e \<Rightarrow> ([], Inl e)
      | Inr title \<Rightarrow>
     (case format_item source ''url'' of
        Inl e \<Rightarrow> ([], Inl e)
      | Inr url \<Rightarrow>
     (case format_item source ''content'' of
        Inl e \<Rightarrow> ([], Inl e)
      | Inr content \<Rightarrow>
          (let block =
                 ''Source '' @ title @ '':\<newline>===\<newline>''
                 @ ''URL: '' @ url @ ''\<newline>===\<newline>''
                 @ ''Most relevant content from source: '' @ content @ ''\<newline>===\<newline>''
           in if include_raw_content
              then (case limited_raw_content max_tokens_per_source source of
                      (printed, Inl e) \<Rightarrow> (printed, Inl e)
                    | (printed, Inr raw_content) \<Rightarrow>
                        (case raw_content_line max_tokens_per_source raw_content of
                           Inl e \<Rightarrow> (printed, Inl e)
                         | Inr line \<Rightarrow> (printed, Inr (block @ line))))
              else ([], Inr block)))))"

text \<open>Lines 53 to 67: the loop threads \<^verbatim>\<open>formatted_text\<close> and the lines printed so
  far. What was printed before an exception stays printed.\<close>

fun format_loop ::
  "int \<Rightarrow> bool \<Rightarrow> pyval list \<Rightarrow> string \<Rightarrow> string list \<Rightarrow> string list \<times> (error + string)" where
  "format_loop mt inc [] formatted_text printed = (printed, Inr formatted_text)"
| "format_loop mt inc (source # rest) formatted_text printed =
     (case format_source mt inc source of
        (lines, Inl e) \<Rightarrow> (printed @ lines, Inl e)
      | (lines, Inr block) \<Rightarrow> format_loop mt inc rest (formatted_text @ block) (printed @ lines))"

text \<open>The whole function: the lines printed, and the exception raised or the string
  returned.\<close>

definition deduplicate_and_format_sources ::
  "pyval \<Rightarrow> int \<Rightarrow> bool \<Rightarrow> string list \<times> (error + string)" where
  "deduplicate_and_format_sources search_response max_tokens_per_source include_raw_content =
     (case unique_sources_of search_response of
        Inl e \<Rightarrow> ([], Inl e)
      | Inr sources \<Rightarrow>
          (case format_loop max_tokens_per_source include_raw_content sources
                  ''Sources:\<newline>\<newline>'' [] of
             (printed, Inl e) \<Rightarrow> (printed, Inl e)
           | (printed, Inr formatted_text) \<Rightarrow> (printed, Inr (py_strip formatted_text))))"

subsection \<open>\<^verbatim>\<open>format_sources\<close>\<close>

text \<open>Lines 80 to 83: one line per element of \<^verbatim>\<open>search_results['results']\<close>.\<close>

definition bullet_line :: "pyval \<Rightarrow> error + string" where
  "bullet_line source =
     (case format_item source ''title'' of
        Inl e \<Rightarrow> Inl e
      | Inr title \<Rightarrow>
          (case format_item source ''url'' of
             Inl e \<Rightarrow> Inl e
           | Inr url \<Rightarrow> Inr (''* '' @ title @ '' : '' @ url)))"

fun bullet_lines :: "pyval list \<Rightarrow> error + string list" where
  "bullet_lines [] = Inr []"
| "bullet_lines (source # rest) =
     (case bullet_line source of
        Inl e \<Rightarrow> Inl e
      | Inr l \<Rightarrow>
          (case bullet_lines rest of
             Inl e \<Rightarrow> Inl e
           | Inr ls \<Rightarrow> Inr (l # ls)))"

definition format_sources :: "pyval \<Rightarrow> error + string" where
  "format_sources search_results =
     (case py_getitem search_results ''results'' of
        Inl e \<Rightarrow> Inl e
      | Inr results \<Rightarrow>
          (case py_iter results of
             Inl e \<Rightarrow> Inl e
           | Inr sources \<Rightarrow>
               (case bullet_lines sources of
                  Inl e \<Rightarrow> Inl e
                | Inr ls \<Rightarrow> Inr (py_join ''\<newline>'' ls))))"

section \<open>The same function over a store of mutable objects\<close>

text \<open>
  Lists and dictionaries are mutable objects, and two variables can hold the same one:
  \<^verbatim>\<open>sources_list = search_response['results']\<close> makes \<^verbatim>\<open>sources_list\<close> an alias of
  the caller's list. To follow what the function writes, the same function is modelled
  a second time over a store of objects. A value is \<^verbatim>\<open>None\<close>, an integer, a string or
  a reference to an object; an object is a list or a dictionary (its items in insertion
  order); the store is the list of all objects, an address being an index into it, and
  a new object is put at the end.
\<close>

datatype sval = SNone | SInt int | SStr string | SRef nat

datatype sobj = SList "sval list" | SDict "(sval \<times> sval) list"

type_synonym store = "sobj list"

text \<open>The object at an address; a reference that points outside the store does not
  occur in Python and is treated as an object that is neither list nor dictionary.\<close>

definition obj_at :: "store \<Rightarrow> nat \<Rightarrow> sobj option" where
  "obj_at h a = (if a < length h then Some (h ! a) else None)"

definition alloc :: "store \<Rightarrow> sobj \<Rightarrow> store \<times> nat" where
  "alloc h obj = (h @ [obj], length h)"

text \<open>Reading: \<^verbatim>\<open>v[k]\<close>, \<^verbatim>\<open>v.get(k, d)\<close>, iteration, hashability and \<^verbatim>\<open>len\<close>, as
  for \<^const>\<open>py_getitem\<close>, \<^const>\<open>py_get\<close>, \<^const>\<open>py_iter\<close>, \<^const>\<open>hashable\<close> and
  \<^const>\<open>py_len\<close>.\<close>

definition st_getitem :: "store \<Rightarrow> sval \<Rightarrow> string \<Rightarrow> error + sval" where
  "st_getitem h v k =
     (case v of
        SRef a \<Rightarrow>
          (case obj_at h a of
             Some (SDict kvs) \<Rightarrow>
               (case map_of kvs (SStr k) of None \<Rightarrow> Inl KeyError | Some x \<Rightarrow> Inr x)
           | _ \<Rightarrow> Inl TypeError)
      | _ \<Rightarrow> Inl TypeError)"

definition st_get :: "store \<Rightarrow> sval \<Rightarrow> string \<Rightarrow> sval \<Rightarrow> error + sval" where
  "st_get h v k d =
     (case v of
        SRef a \<Rightarrow>
          (case obj_at h a of
             Some (SDict kvs) \<Rightarrow> (case map_of kvs (SStr k) of None \<Rightarrow> Inr d | Some x \<Rightarrow> Inr x)
           | _ \<Rightarrow> Inl AttributeError)
      | _ \<Rightarrow> Inl AttributeError)"

definition st_iter :: "store \<Rightarrow> sval \<Rightarrow> error + sval list" where
  "st_iter h v =
     (case v of
        SRef a \<Rightarrow>
          (case obj_at h a of
             Some (SList xs) \<Rightarrow> Inr xs
           | Some (SDict kvs) \<Rightarrow> Inr (map fst kvs)
           | None \<Rightarrow> Inl TypeError)
      | SStr s \<Rightarrow> Inr (map (\<lambda>c. SStr [c]) s)
      | _ \<Rightarrow> Inl TypeError)"

fun st_hashable :: "sval \<Rightarrow> bool" where
  "st_hashable (SRef _) = False"
| "st_hashable _ = True"

definition st_len :: "store \<Rightarrow> sval \<Rightarrow> error + int" where
  "st_len h v =
     (case v of
        SStr s \<Rightarrow> Inr (int (length s))
      | SRef a \<Rightarrow>
          (case obj_at h a of
             Some (SList xs) \<Rightarrow> Inr (int (length xs))
           | Some (SDict kvs) \<Rightarrow> Inr (int (length kvs))
           | None \<Rightarrow> Inl TypeError)
      | _ \<Rightarrow> Inl TypeError)"

text \<open>Writing: \<^verbatim>\<open>l.extend(items)\<close> and \<^verbatim>\<open>d[k] = v\<close> replace the object at the
  address of \<^verbatim>\<open>l\<close> or \<^verbatim>\<open>d\<close>. These are the only two mutating operations the
  function performs.\<close>

definition list_extend :: "store \<Rightarrow> nat \<Rightarrow> sval list \<Rightarrow> store" where
  "list_extend h a items =
     (case obj_at h a of Some (SList xs) \<Rightarrow> h[a := SList (xs @ items)] | _ \<Rightarrow> h)"

definition dict_setitem :: "store \<Rightarrow> nat \<Rightarrow> sval \<Rightarrow> sval \<Rightarrow> store" where
  "dict_setitem h a k v =
     (case obj_at h a of
        Some (SDict kvs) \<Rightarrow>
          h[a := SDict (if map_of kvs k = None then kvs @ [(k, v)]
                        else map (\<lambda>kv. if fst kv = k then (k, v) else kv) kvs)]
      | _ \<Rightarrow> h)"

text \<open>Lines 33 to 43. In the dictionary branch \<^verbatim>\<open>sources_list\<close> is the value under
  \<^verbatim>\<open>results\<close> itself, an alias into the input; in the list branch it is a new list,
  extended once for each response.\<close>

definition st_extend_items :: "store \<Rightarrow> sval \<Rightarrow> error + sval list" where
  "st_extend_items h response =
     (case response of
        SRef b \<Rightarrow>
          (case obj_at h b of
             Some (SDict kvs) \<Rightarrow>
               (if map_of kvs (SStr ''results'') \<noteq> None
                then (case st_getitem h response ''results'' of
                        Inl e \<Rightarrow> Inl e
                      | Inr res \<Rightarrow> st_iter h res)
                else st_iter h response)
           | _ \<Rightarrow> st_iter h response)
      | _ \<Rightarrow> st_iter h response)"

fun st_collect_sources :: "store \<Rightarrow> nat \<Rightarrow> sval list \<Rightarrow> store \<times> (error + unit)" where
  "st_collect_sources h sources_list [] = (h, Inr ())"
| "st_collect_sources h sources_list (response # rest) =
     (case st_extend_items h response of
        Inl e \<Rightarrow> (h, Inl e)
      | Inr items \<Rightarrow> st_collect_sources (list_extend h sources_list items) sources_list rest)"

definition st_sources_list_of :: "store \<Rightarrow> sval \<Rightarrow> store \<times> (error + sval)" where
  "st_sources_list_of h search_response =
     (case search_response of
        SRef a \<Rightarrow>
          (case obj_at h a of
             Some (SDict kvs) \<Rightarrow> (h, st_getitem h search_response ''results'')
           | Some (SList responses) \<Rightarrow>
               (case alloc h (SList []) of
                  (h1, sources_list) \<Rightarrow>
                    (case st_collect_sources h1 sources_list responses of
                       (h2, Inl e) \<Rightarrow> (h2, Inl e)
                     | (h2, Inr _) \<Rightarrow> (h2, Inr (SRef sources_list))))
           | None \<Rightarrow> (h, Inl ValueError))
      | _ \<Rightarrow> (h, Inl ValueError))"

text \<open>Lines 46 to 49: \<^verbatim>\<open>unique_sources\<close> is a new dictionary; the loop stores into
  it the sources themselves (references), not copies.\<close>

definition st_contains :: "store \<Rightarrow> nat \<Rightarrow> sval \<Rightarrow> bool" where
  "st_contains h a k = (case obj_at h a of Some (SDict kvs) \<Rightarrow> map_of kvs k \<noteq> None | _ \<Rightarrow> False)"

fun st_dedup_loop :: "store \<Rightarrow> nat \<Rightarrow> sval list \<Rightarrow> store \<times> (error + unit)" where
  "st_dedup_loop h unique_sources [] = (h, Inr ())"
| "st_dedup_loop h unique_sources (source # rest) =
     (case st_getitem h source ''url'' of
        Inl e \<Rightarrow> (h, Inl e)
      | Inr url \<Rightarrow>
          if \<not> st_hashable url then (h, Inl TypeError)
          else if \<not> st_contains h unique_sources url
          then st_dedup_loop (dict_setitem h unique_sources url source) unique_sources rest
          else st_dedup_loop h unique_sources rest)"

definition dict_values :: "store \<Rightarrow> nat \<Rightarrow> sval list" where
  "dict_values h a = (case obj_at h a of Some (SDict kvs) \<Rightarrow> map snd kvs | _ \<Rightarrow> [])"

text \<open>\<^verbatim>\<open>repr\<close> and \<^verbatim>\<open>str\<close> of a value in the store. Python keeps the containers
  whose \<^verbatim>\<open>repr\<close> is under way and writes \<^verbatim>\<open>[...]\<close> or \<^verbatim>\<open>{...}\<close> for one that
  contains itself.\<close>

function st_repr :: "store \<Rightarrow> nat list \<Rightarrow> sval \<Rightarrow> error + string" where
  "st_repr h active SNone = Inr ''None''"
| "st_repr h active (SInt i) = str_of_int i"
| "st_repr h active (SStr s) = Inr (repr_str s)"
| "st_repr h active (SRef a) =
     (case obj_at h a of
        None \<Rightarrow> Inr []
      | Some (SList xs) \<Rightarrow>
          if a \<in> set active then Inr ''[...]''
          else (case first_error (map (st_repr h (a # active)) xs) of
                  Inl e \<Rightarrow> Inl e
                | Inr items \<Rightarrow> Inr (''['' @ py_join '', '' items @ '']''))
      | Some (SDict kvs) \<Rightarrow>
          if a \<in> set active then Inr ''{...}''
          else (case first_error
                       (map (\<lambda>kv. case st_repr h (a # active) (fst kv) of
                                    Inl e \<Rightarrow> Inl e
                                  | Inr key \<Rightarrow>
                                      (case st_repr h (a # active) (snd kv) of
                                         Inl e \<Rightarrow> Inl e
                                       | Inr val \<Rightarrow> Inr (key @ '': '' @ val))) kvs) of
                  Inl e \<Rightarrow> Inl e
                | Inr items \<Rightarrow> Inr (''{'' @ py_join '', '' items @ ''}'')))"
  by pat_completeness auto
termination
proof -
  have less: "card (set active \<inter> {..<n}) < n" if "a < n" "a \<notin> set active"
    for a n :: nat and active :: "nat list"
  proof -
    have "set active \<inter> {..<n} \<subseteq> {..<n} - {a}"
      using that(2) by auto
    then have "card (set active \<inter> {..<n}) \<le> card ({..<n} - {a})"
      by (intro card_mono) simp_all
    also have "\<dots> < n"
      using that(1) by simp
    finally show ?thesis .
  qed
  show ?thesis
    by (relation "measure (\<lambda>(h, active, v). length h - card (set active \<inter> {..<length h}))")
       (auto simp: obj_at_def split: if_splits dest: less)
qed

fun st_str :: "store \<Rightarrow> sval \<Rightarrow> error + string" where
  "st_str h (SStr s) = Inr s"
| "st_str h v = st_repr h [] v"

definition st_format_item :: "store \<Rightarrow> sval \<Rightarrow> string \<Rightarrow> error + string" where
  "st_format_item h source k =
     (case st_getitem h source k of
        Inl e \<Rightarrow> Inl e
      | Inr v \<Rightarrow> st_str h v)"

text \<open>Lines 53 to 67: the formatting loop only reads the store. It assigns to the
  local names \<^verbatim>\<open>formatted_text\<close> and \<^verbatim>\<open>raw_content\<close> and to no subscript, and
  calls no mutating method.\<close>

definition st_truncated :: "sval \<Rightarrow> int \<Rightarrow> error + sval" where
  "st_truncated raw_content char_limit =
     (case raw_content of
        SStr s \<Rightarrow> Inr (SStr (py_slice_to s char_limit @ ''... [truncated]''))
      | _ \<Rightarrow> Inl TypeError)"

definition st_cut_to_limit :: "store \<Rightarrow> sval \<Rightarrow> int \<Rightarrow> error + sval" where
  "st_cut_to_limit h raw_content char_limit =
     (case st_len h raw_content of
        Inl e \<Rightarrow> Inl e
      | Inr n \<Rightarrow>
          if n > char_limit then st_truncated raw_content char_limit else Inr raw_content)"

definition st_limited_raw_content ::
  "store \<Rightarrow> int \<Rightarrow> sval \<Rightarrow> string list \<times> (error + sval)" where
  "st_limited_raw_content h max_tokens_per_source source =
     (let char_limit = max_tokens_per_source * 4
      in case st_get h source ''raw_content'' (SStr []) of
           Inl e \<Rightarrow> ([], Inl e)
         | Inr got \<Rightarrow>
             if got = SNone
             then (case st_format_item h source ''url'' of
                     Inl e \<Rightarrow> ([], Inl e)
                   | Inr url \<Rightarrow>
                       ([''Warning: No raw_content found for source '' @ url],
                        st_cut_to_limit h (SStr []) char_limit))
             else ([], st_cut_to_limit h got char_limit))"

definition st_raw_content_line :: "store \<Rightarrow> int \<Rightarrow> sval \<Rightarrow> error + string" where
  "st_raw_content_line h max_tokens_per_source raw_content =
     (case str_of_int max_tokens_per_source of
        Inl e \<Rightarrow> Inl e
      | Inr budget \<Rightarrow>
          (case st_str h raw_content of
             Inl e \<Rightarrow> Inl e
           | Inr raw \<Rightarrow>
               Inr (''Full source content limited to '' @ budget @ '' tokens: '' @ raw
                    @ ''\<newline>\<newline>'')))"

definition st_format_source ::
  "store \<Rightarrow> int \<Rightarrow> bool \<Rightarrow> sval \<Rightarrow> string list \<times> (error + string)" where
  "st_format_source h max_tokens_per_source include_raw_content source =
     (case st_format_item h source ''title'' of
        Inl e \<Rightarrow> ([], Inl e)
      | Inr title \<Rightarrow>
     (case st_format_item h source ''url'' of
        Inl e \<Rightarrow> ([], Inl e)
      | Inr url \<Rightarrow>
     (case st_format_item h source ''content'' of
        Inl e \<Rightarrow> ([], Inl e)
      | Inr content \<Rightarrow>
          (let block =
                 ''Source '' @ title @ '':\<newline>===\<newline>''
                 @ ''URL: '' @ url @ ''\<newline>===\<newline>''
                 @ ''Most relevant content from source: '' @ content @ ''\<newline>===\<newline>''
           in if include_raw_content
              then (case st_limited_raw_content h max_tokens_per_source source of
                      (printed, Inl e) \<Rightarrow> (printed, Inl e)
                    | (printed, Inr raw_content) \<Rightarrow>
                        (case st_raw_content_line h max_tokens_per_source raw_content of
                           Inl e \<Rightarrow> (printed, Inl e)
                         | Inr line \<Rightarrow> (printed, Inr (block @ line))))
              else ([], Inr block)))))"

fun st_format_loop ::
  "store \<Rightarrow> int \<Rightarrow> bool \<Rightarrow> sval list \<Rightarrow> string \<Rightarrow> string list
   \<Rightarrow> string list \<times> (error + string)" where
  "st_format_loop h mt inc [] formatted_text printed = (printed, Inr formatted_text)"
| "st_format_loop h mt inc (source # rest) formatted_text printed =
     (case st_format_source h mt inc source of
        (lines, Inl e) \<Rightarrow> (printed @ lines, Inl e)
      | (lines, Inr block) \<Rightarrow>
          st_format_loop h mt inc rest (formatted_text @ block) (printed @ lines))"

text \<open>The whole function: the store after the call, the lines printed, and the
  exception raised or the string returned.\<close>

definition st_deduplicate_and_format_sources ::
  "store \<Rightarrow> sval \<Rightarrow> int \<Rightarrow> bool \<Rightarrow> store \<times> string list \<times> (error + string)" where
  "st_deduplicate_and_format_sources h search_response max_tokens_per_source
     include_raw_content =
     (case st_sources_list_of h search_response of
        (h1, Inl e) \<Rightarrow> (h1, [], Inl e)
      | (h1, Inr sources_list) \<Rightarrow>
          (case alloc h1 (SDict []) of
             (h2, unique_sources) \<Rightarrow>
               (case st_iter h2 sources_list of
                  Inl e \<Rightarrow> (h2, [], Inl e)
                | Inr sources \<Rightarrow>
                    (case st_dedup_loop h2 unique_sources sources of
                       (h3, Inl e) \<Rightarrow> (h3, [], Inl e)
                     | (h3, Inr _) \<Rightarrow>
                         (case st_format_loop h3 max_tokens_per_source include_raw_content
                                 (dict_values h3 unique_sources) ''Sources:\<newline>\<newline>'' [] of
                            (printed, Inl e) \<Rightarrow> (h3, printed, Inl e)
                          | (printed, Inr formatted_text) \<Rightarrow>
                              (h3, printed, Inr (py_strip formatted_text)))))))"

section \<open>Relating the two embeddings\<close>

text \<open>A value in the store represents a value of type \<^typ>\<open>pyval\<close> when it has the same
  shape: the same atom, or a reference to a list or dictionary whose items represent
  the items of the \<^typ>\<open>pyval\<close>, in order. Objects may be shared; a container that
  contains itself represents nothing.\<close>

fun represents :: "store \<Rightarrow> sval \<Rightarrow> pyval \<Rightarrow> bool" where
  "represents h v PNone = (v = SNone)"
| "represents h v (PInt i) = (v = SInt i)"
| "represents h v (PStr s) = (v = SStr s)"
| "represents h v (PList ps) =
     (case v of
        SRef a \<Rightarrow>
          (case obj_at h a of
             Some (SList xs) \<Rightarrow> list_all2 (represents h) xs ps
           | _ \<Rightarrow> False)
      | _ \<Rightarrow> False)"
| "represents h v (PDict kvs) =
     (case v of
        SRef a \<Rightarrow>
          (case obj_at h a of
             Some (SDict skvs) \<Rightarrow>
               list_all2 (\<lambda>skv kv. fst skv = SStr (fst kv) \<and> represents h (snd skv) (snd kv))
                 skvs kvs
           | _ \<Rightarrow> False)
      | _ \<Rightarrow> False)"

section \<open>Shapes of the input\<close>

text \<open>\<^verbatim>\<open>isinstance(v, dict)\<close> and \<^verbatim>\<open>isinstance(v, list)\<close>.\<close>

fun is_dict :: "pyval \<Rightarrow> bool" where
  "is_dict (PDict _) = True"
| "is_dict _ = False"

fun is_list :: "pyval \<Rightarrow> bool" where
  "is_list (PList _) = True"
| "is_list _ = False"

text \<open>A well-formed record is what the specification calls a Source Record: a
  dictionary whose title, url and content are strings and whose raw content, where it
  is read, is absent, \<^verbatim>\<open>None\<close> or a string. A valid input is a dictionary whose
  \<^verbatim>\<open>results\<close> is a list of well-formed records, or a list each of whose elements is
  such a dictionary or itself a list of well-formed records.\<close>

fun is_str :: "pyval \<Rightarrow> bool" where
  "is_str (PStr _) = True"
| "is_str _ = False"

fun str_or_none :: "pyval \<Rightarrow> bool" where
  "str_or_none PNone = True"
| "str_or_none (PStr _) = True"
| "str_or_none _ = False"

definition has_str :: "(string \<times> pyval) list \<Rightarrow> string \<Rightarrow> bool" where
  "has_str fields k = (case map_of fields k of None \<Rightarrow> False | Some v \<Rightarrow> is_str v)"

definition well_formed_record :: "bool \<Rightarrow> pyval \<Rightarrow> bool" where
  "well_formed_record include_raw_content r =
     (case r of
        PDict fields \<Rightarrow>
          has_str fields ''title'' \<and> has_str fields ''url'' \<and> has_str fields ''content''
          \<and> (include_raw_content \<longrightarrow>
               (case map_of fields ''raw_content'' of None \<Rightarrow> True | Some raw \<Rightarrow> str_or_none raw))
      | _ \<Rightarrow> False)"

definition record_sequence :: "bool \<Rightarrow> pyval \<Rightarrow> bool" where
  "record_sequence include_raw_content v =
     (case v of PList rs \<Rightarrow> list_all (well_formed_record include_raw_content) rs | _ \<Rightarrow> False)"

definition collection :: "bool \<Rightarrow> pyval \<Rightarrow> bool" where
  "collection include_raw_content v =
     (case v of
        PDict kvs \<Rightarrow>
          (case map_of kvs ''results'' of
             None \<Rightarrow> False
           | Some res \<Rightarrow> record_sequence include_raw_content res)
      | _ \<Rightarrow> False)"

definition valid_shape :: "bool \<Rightarrow> pyval \<Rightarrow> bool" where
  "valid_shape include_raw_content search_response =
     (case search_response of
        PDict kvs \<Rightarrow> collection include_raw_content search_response
      | PList responses \<Rightarrow>
          list_all (\<lambda>r. collection include_raw_content r \<or> record_sequence include_raw_content r)
            responses
      | _ \<Rightarrow> False)"

text \<open>An integer that \<^verbatim>\<open>str\<close> converts, and a value that holds no other integer.\<close>

definition int_within_limit :: "int \<Rightarrow> bool" where
  "int_within_limit i = (length (str_of_nat (nat \<bar>i\<bar>)) \<le> int_max_str_digits)"

fun ints_within_limit :: "pyval \<Rightarrow> bool" where
  "ints_within_limit PNone = True"
| "ints_within_limit (PInt i) = int_within_limit i"
| "ints_within_limit (PStr s) = True"
| "ints_within_limit (PList xs) = list_all ints_within_limit xs"
| "ints_within_limit (PDict kvs) = list_all (\<lambda>kv. ints_within_limit (snd kv)) kvs"

section \<open>The specification's wording\<close>

text \<open>The specification describes the sources that are formatted as "the record order
  of \<^verbatim>\<open>results\<close> minus later duplicates by url": a record stays when no earlier
  record has its url.\<close>

function minus_later_duplicates :: "pyval list \<Rightarrow> pyval list" where
  "minus_later_duplicates [] = []"
| "minus_later_duplicates (r # rs) =
     r # minus_later_duplicates (filter (\<lambda>r'. py_getitem r' ''url'' \<noteq> py_getitem r ''url'') rs)"
  by pat_completeness auto
termination
  by (relation "measure length") (auto simp: less_Suc_eq_le)

section \<open>Example records\<close>

text \<open>The records of the specification's examples, and a few more, for the concrete
  instances below.\<close>

abbreviation source_A :: pyval where
  "source_A \<equiv> PDict [(''title'', PStr ''A''), (''url'', PStr ''u1''), (''content'', PStr ''c1'')]"

abbreviation source_A_raw :: "pyval \<Rightarrow> pyval" where
  "source_A_raw raw \<equiv>
     PDict [(''title'', PStr ''A''), (''url'', PStr ''u1''), (''content'', PStr ''c1''),
            (''raw_content'', raw)]"

abbreviation source_B :: pyval where
  "source_B \<equiv> PDict [(''title'', PStr ''B''), (''url'', PStr ''u1''), (''content'', PStr ''c2'')]"

abbreviation source_C :: pyval where
  "source_C \<equiv> PDict [(''title'', PStr ''C''), (''url'', PStr ''u2''), (''content'', PStr ''c3'')]"

abbreviation source_P :: pyval where
  "source_P \<equiv> PDict [(''title'', PStr ''P''), (''url'', PStr ''u1'')]"

abbreviation source_Q :: pyval where
  "source_Q \<equiv> PDict [(''title'', PStr ''Q''), (''url'', PStr ''u1'')]"

text \<open>The output for the record A alone, without raw content.\<close>

abbreviation output_A :: string where
  "output_A \<equiv> ''Sources:\<newline>\<newline>'' @ ''Source A:\<newline>===\<newline>'' @ ''URL: u1\<newline>===\<newline>''
                @ ''Most relevant content from source: c1\<newline>===''"


section \<open>Auxiliary facts\<close>

subsection \<open>Stripping\<close>

lemma py_isspace_literals [simp]: "\<not> py_isspace CHR ''S''" "\<not> py_isspace CHR '':''" "\<not> py_isspace CHR '']''" "\<not> py_isspace CHR ''=''"
  "py_isspace CHR ''\<newline>''"
  by (simp_all add: py_isspace_def)

lemma dropWhile_append_keep:
  "p \<noteq> [] \<Longrightarrow> \<not> P (hd p) \<Longrightarrow> dropWhile P (xs @ p) = dropWhile P xs @ p"
  by (induction xs) (auto simp: neq_Nil_conv)

lemma py_strip_prefix:
  assumes "p \<noteq> []" "\<not> py_isspace (hd p)" "\<not> py_isspace (last p)"
  shows "py_strip (p @ r) = p @ rev (dropWhile py_isspace (rev r))"
proof -
  have 1: "dropWhile py_isspace (p @ r) = p @ r"
    using assms by (cases p) auto
  have 2: "dropWhile py_isspace (rev r @ rev p) = dropWhile py_isspace (rev r) @ rev p"
    using assms by (intro dropWhile_append_keep) (auto simp: hd_rev)
  show ?thesis by (simp add: py_strip_def 1 2)
qed

lemma format_source_no_raw:
  "format_source t1 False s = format_source t2 False s"
  by (simp add: format_source_def Let_def split: sum.splits)

lemma format_loop_no_raw:
  "format_loop t1 False ss ftext out = format_loop t2 False ss ftext out"
  by (induction ss arbitrary: ftext out)
     (simp_all add: format_source_no_raw [of t1 _ t2] split: sum.splits prod.splits)

lemma format_loop_prefix:
  "format_loop mt inc ss ftext out = (out', Inr s) \<Longrightarrow> \<exists>rest. s = ftext @ rest"
proof (induction ss arbitrary: ftext out)
  case Nil
  then show ?case by simp
next
  case (Cons a ss)
  then obtain b w where "format_source mt inc a = (w, Inr b)"
    and "format_loop mt inc ss (ftext @ b) (out @ w) = (out', Inr s)"
    by (auto split: sum.splits prod.splits)
  from Cons.IH [OF this(2)] show ?case by auto
qed

lemma format_loop_blocks:
  "\<forall>s\<in>set ss. format_source mt inc s = (warn s, Inr (block s)) \<Longrightarrow>
   format_loop mt inc ss ftext out = (out @ concat (map warn ss), Inr (ftext @ concat (map block ss)))"
  by (induction ss arbitrary: ftext out) simp_all

subsection \<open>The deduplication loop\<close>

lemma map_of_snoc_None:
  "map_of (acc @ [(k, v)]) k' = None \<longleftrightarrow> map_of acc k' = None \<and> k' \<noteq> k"
  by (induction acc) auto

lemma dedup_loop_Inr_urls:
  "dedup_loop ss acc = Inr uniq \<Longrightarrow>
   \<forall>s\<in>set ss. \<exists>u. py_getitem s ''url'' = Inr u \<and> hashable u"
  by (induction ss arbitrary: acc) (auto split: sum.splits if_splits)

lemma dedup_loop_first_seen:
  assumes "\<forall>s\<in>set ss. \<exists>u. py_getitem s ''url'' = Inr u \<and> hashable u"
  shows "dedup_loop ss acc =
         Inr (acc @ map (\<lambda>s. (projr (py_getitem s ''url''), s))
                      (minus_later_duplicates
                         (filter (\<lambda>s. map_of acc (projr (py_getitem s ''url'')) = None) ss)))"
  using assms
proof (induction ss arbitrary: acc)
  case Nil
  then show ?case by simp
next
  case (Cons s ss)
  then obtain u where u: "py_getitem s ''url'' = Inr u" "hashable u" by auto
  have rest: "\<forall>s\<in>set ss. \<exists>u. py_getitem s ''url'' = Inr u \<and> hashable u"
    using Cons.prems by simp
  show ?case
  proof (cases "map_of acc u = None")
    case True
    let ?K = "\<lambda>s. projr (py_getitem s ''url'')"
    have feq: "filter (\<lambda>s'. map_of (acc @ [(u, s)]) (?K s') = None) ss
        = filter (\<lambda>r'. py_getitem r' ''url'' \<noteq> py_getitem s ''url'')
            (filter (\<lambda>s'. map_of acc (?K s') = None) ss)"
      unfolding filter_filter
    proof (rule filter_cong [OF refl])
      fix x assume "x \<in> set ss"
      with rest obtain v where "py_getitem x ''url'' = Inr v" by auto
      then show "(map_of (acc @ [(u, s)]) (?K x) = None) =
          (map_of acc (?K x) = None \<and> py_getitem x ''url'' \<noteq> py_getitem s ''url'')"
        by (auto simp: map_of_snoc_None u)
    qed
    have step: "dedup_loop (s # ss) acc = dedup_loop ss (acc @ [(u, s)])"
      using u True by simp
    have flt: "filter (\<lambda>s'. map_of acc (?K s') = None) (s # ss)
             = s # filter (\<lambda>s'. map_of acc (?K s') = None) ss"
      using u True by simp
    show ?thesis
      unfolding step flt Cons.IH [OF rest] feq minus_later_duplicates.simps
      by (simp add: u)
  next
    case False
    have step: "dedup_loop (s # ss) acc = dedup_loop ss acc"
      using u False by auto
    have flt: "filter (\<lambda>s'. map_of acc (projr (py_getitem s' ''url'')) = None) (s # ss)
             = filter (\<lambda>s'. map_of acc (projr (py_getitem s' ''url'')) = None) ss"
      using u False by auto
    show ?thesis
      unfolding step flt by (rule Cons.IH [OF rest])
  qed
qed

lemma filter_minus_later_duplicates:
  "filter (\<lambda>s. py_getitem s ''url'' = k) (minus_later_duplicates l)
   = take 1 (filter (\<lambda>s. py_getitem s ''url'' = k) l)"
proof (induction l rule: minus_later_duplicates.induct)
  case 1
  then show ?case by simp
next
  case (2 r rs)
  show ?case
  proof (cases "py_getitem r ''url'' = k")
    case True
    then have "filter (\<lambda>s. py_getitem s ''url'' = k)
                 (filter (\<lambda>r'. py_getitem r' ''url'' \<noteq> py_getitem r ''url'') rs) = []"
      by (simp add: filter_empty_conv)
    with True 2 show ?thesis by simp
  next
    case False
    have "filter (\<lambda>s. py_getitem s ''url'' = k)
                 (filter (\<lambda>r'. py_getitem r' ''url'' \<noteq> py_getitem r ''url'') rs)
          = filter (\<lambda>s. py_getitem s ''url'' = k) rs"
      unfolding filter_filter by (rule filter_cong) (use False in auto)
    with False 2 show ?thesis by simp
  qed
qed

lemma set_minus_later_duplicates: "set (minus_later_duplicates l) \<subseteq> set l"
  by (induction l rule: minus_later_duplicates.induct) auto

lemma dedup_loop_drop_later:
  assumes "py_getitem r2 ''url'' = Inr u"
    and "(map_of acc u \<noteq> None \<and> hashable u) \<or> (\<exists>r1\<in>set xs. py_getitem r1 ''url'' = Inr u)"
  shows "dedup_loop (xs @ r2 # zs) acc = dedup_loop (xs @ zs) acc"
  using assms(2)
proof (induction xs arbitrary: acc)
  case Nil
  with assms(1) show ?case by auto
next
  case (Cons x xs)
  show ?case
  proof (cases "py_getitem x ''url''")
    case (Inl e)
    then show ?thesis by simp
  next
    case (Inr v)
    show ?thesis
    proof (cases "hashable v")
      case False
      with Inr show ?thesis by simp
    next
      case True
      have keep: "(map_of acc' u \<noteq> None \<and> hashable u) \<or> (\<exists>r1\<in>set xs. py_getitem r1 ''url'' = Inr u)"
        if "(map_of acc v \<noteq> None \<and> acc' = acc) \<or> (map_of acc v = None \<and> acc' = acc @ [(v, x)])" for acc'
        using Cons.prems that Inr True by (auto simp: map_of_snoc_None)
      show ?thesis
        using Inr True Cons.IH [OF keep] by simp
    qed
  qed
qed

lemma unique_sources_of_flat:
  assumes "sources_list_of sr = Inr (PList rs)"
  shows "unique_sources_of sr =
         (case dedup_loop rs [] of Inl e \<Rightarrow> Inl e | Inr uniq \<Rightarrow> Inr (map snd uniq))"
  using assms by (simp add: unique_sources_of_def)

lemma unique_sources_of_results:
  assumes "map_of kvs ''results'' = Some (PList rs)"
  shows "unique_sources_of (PDict kvs) =
         (case dedup_loop rs [] of Inl e \<Rightarrow> Inl e | Inr uniq \<Rightarrow> Inr (map snd uniq))"
  using assms by (simp add: unique_sources_of_def sources_list_of_def)


lemma first_with_url:
  assumes "\<forall>x\<in>set xs. py_getitem x ''url'' \<noteq> Inr u" "py_getitem r1 ''url'' = Inr u"
  shows "take 1 (filter (\<lambda>s. py_getitem s ''url'' = Inr u) (xs @ r1 # rest)) = [r1]"
proof -
  have "filter (\<lambda>s. py_getitem s ''url'' = Inr u) xs = []"
    using assms(1) by (simp add: filter_empty_conv)
  then show ?thesis using assms(2) by simp
qed

subsection \<open>The bullet list\<close>

lemma bullet_lines_map:
  "\<forall>r\<in>set rs. format_item r ''title'' = Inr (t r) \<and> format_item r ''url'' = Inr (u r) \<Longrightarrow>
   bullet_lines rs = Inr (map (\<lambda>r. ''* '' @ t r @ '' : '' @ u r) rs)"
  by (induction rs) (simp_all add: bullet_line_def)

subsection \<open>One source\<close>

lemma str_of_int_10: "str_of_int 10 = Inr ''10''"
  by code_simp

lemma limited_raw_content_str:
  assumes "map_of fields ''raw_content'' = Some (PStr s)"
  shows "limited_raw_content mt (PDict fields) =
         ([], Inr (PStr (if int (length s) > mt * 4
                         then py_slice_to s (mt * 4) @ ''... [truncated]'' else s)))"
  using assms by (simp add: limited_raw_content_def cut_to_limit_def truncated_def)

lemma limited_raw_content_absent:
  assumes "map_of fields ''raw_content'' = None" "0 \<le> mt"
  shows "limited_raw_content mt (PDict fields) = ([], Inr (PStr []))"
  using assms by (simp add: limited_raw_content_def cut_to_limit_def truncated_def)

lemma limited_raw_content_none:
  assumes "map_of fields ''raw_content'' = Some PNone"
    and "format_item (PDict fields) ''url'' = Inr url" "0 \<le> mt"
  shows "limited_raw_content mt (PDict fields) =
         ([''Warning: No raw_content found for source '' @ url], Inr (PStr []))"
  using assms by (simp add: limited_raw_content_def cut_to_limit_def truncated_def)

lemma single_source:
  assumes "map_of kvs ''results'' = Some (PList [PDict fields])"
    and "map_of fields ''url'' = Some u" "hashable u"
  shows "unique_sources_of (PDict kvs) = Inr [PDict fields]"
  using assms by (simp add: unique_sources_of_def sources_list_of_def)

lemma single_source_output:
  assumes "unique_sources_of sr = Inr [r]" "format_source mt inc r = (w, Inr b)"
  shows "deduplicate_and_format_sources sr mt inc = (w, Inr (py_strip (''Sources:\<newline>\<newline>'' @ b)))"
  using assms by (simp add: deduplicate_and_format_sources_def)

subsection \<open>The limit on integer conversion\<close>

lemma str_of_nat_not_Nil: "str_of_nat n \<noteq> []"
  by (simp add: str_of_nat.simps [of n])

lemma length_str_of_nat:
  "0 < k \<Longrightarrow> (length (str_of_nat n) \<le> k) = (n < 10 ^ k)"
proof (induction n arbitrary: k rule: str_of_nat.induct)
  case (1 n)
  show ?case
  proof (cases "n < 10")
    case True
    have "(10::nat) ^ 1 \<le> 10 ^ k"
      using 1(2) by (intro power_increasing) simp_all
    with True 1(2) show ?thesis
      by (simp add: str_of_nat.simps [of n])
  next
    case False
    show ?thesis
    proof (cases "k = 1")
      case True
      with False show ?thesis
        by (simp add: str_of_nat.simps [of n] str_of_nat_not_Nil)
    next
      case k: False
      with 1(2) obtain j where j: "k = Suc j" "0 < j"
        by (cases k) auto
      have "(n div 10 < 10 ^ j) = (n < 10 ^ k)"
        unfolding j by (simp add: div_less_iff_less_mult mult.commute)
      with 1(1) [OF False j(2)] False show ?thesis
        by (simp add: str_of_nat.simps [of n] j)
    qed
  qed
qed

lemma int_max_str_digits_pos: "0 < int_max_str_digits"
  by (simp add: int_max_str_digits_def)

lemma int_within_limit_iff: "int_within_limit i \<longleftrightarrow> \<bar>i\<bar> < 10 ^ int_max_str_digits"
proof -
  have "(nat \<bar>i\<bar> < 10 ^ int_max_str_digits) = (\<bar>i\<bar> < 10 ^ int_max_str_digits)"
    by (metis abs_ge_zero nat_less_iff of_nat_numeral of_nat_power)
  then show ?thesis
    by (simp add: int_within_limit_def length_str_of_nat [OF int_max_str_digits_pos])
qed

lemma str_of_int_cases:
  "(int_within_limit i \<and> (\<exists>s. str_of_int i = Inr s)) \<or>
   (\<not> int_within_limit i \<and> str_of_int i = Inl ValueError)"
  by (auto simp: str_of_int_def int_within_limit_def Let_def)

lemma str_of_int_raises_iff:
  "str_of_int i = Inl ValueError \<longleftrightarrow> 10 ^ int_max_str_digits \<le> \<bar>i\<bar>"
  using str_of_int_cases [of i] int_within_limit_iff [of i] by auto

subsection \<open>Which exceptions, and when none\<close>

lemma pyval_induct_pairs [case_names PNone PInt PStr PList PDict]:
  assumes "P PNone" "\<And>i. P (PInt i)" "\<And>s. P (PStr s)"
    and "\<And>ps. (\<And>p. p \<in> set ps \<Longrightarrow> P p) \<Longrightarrow> P (PList ps)"
    and "\<And>kvs. (\<And>k p. (k, p) \<in> set kvs \<Longrightarrow> P p) \<Longrightarrow> P (PDict kvs)"
  shows "P p"
proof (induction p)
  case (PDict kvs)
  show ?case
  proof (rule assms(5))
    fix k p assume "(k, p) \<in> set kvs"
    then show "P p" using PDict [of "(k, p)" p] by (simp add: snds.simps)
  qed
qed (auto intro: assms)

lemma first_error_Inr:
  "\<forall>x\<in>set xs. \<exists>v. x = Inr v \<Longrightarrow> \<exists>vs. first_error xs = Inr vs"
  by (induction xs) auto

lemma py_repr_within_limit: "ints_within_limit v \<Longrightarrow> \<exists>s. py_repr v = Inr s"
proof (induction v rule: pyval_induct_pairs)
  case (PInt i)
  then show ?case using str_of_int_cases [of i] by auto
next
  case (PList ps)
  then have "\<forall>x\<in>set (map py_repr ps). \<exists>v. x = Inr v"
    by (auto simp: list_all_iff)
  from first_error_Inr [OF this] show ?case by auto
next
  case (PDict kvs)
  have "\<forall>x\<in>set (map (\<lambda>kv. case py_repr (snd kv) of
                          Inl e \<Rightarrow> Inl e
                        | Inr val \<Rightarrow> Inr (repr_str (fst kv) @ '': '' @ val)) kvs). \<exists>v. x = Inr v"
  proof
    fix x assume "x \<in> set (map (\<lambda>kv. case py_repr (snd kv) of
                          Inl e \<Rightarrow> Inl e
                        | Inr val \<Rightarrow> Inr (repr_str (fst kv) @ '': '' @ val)) kvs)"
    then obtain kv where kv: "kv \<in> set kvs"
      and x: "x = (case py_repr (snd kv) of
                          Inl e \<Rightarrow> Inl e
                        | Inr val \<Rightarrow> Inr (repr_str (fst kv) @ '': '' @ val))"
      by auto
    from kv PDict.prems have "ints_within_limit (snd kv)"
      by (simp add: list_all_iff)
    with PDict.IH [of "fst kv" "snd kv"] kv obtain s where "py_repr (snd kv) = Inr s"
      by auto
    with x show "\<exists>v. x = Inr v" by simp
  qed
  from first_error_Inr [OF this] show ?case by auto
qed simp_all

lemma py_str_within_limit: "ints_within_limit v \<Longrightarrow> \<exists>s. py_str v = Inr s"
  using py_repr_within_limit [of v] by (cases v) auto

lemma map_of_within_limit:
  "map_of kvs k = Some x \<Longrightarrow> list_all (\<lambda>kv. ints_within_limit (snd kv)) kvs \<Longrightarrow>
   ints_within_limit x"
proof -
  assume m: "map_of kvs k = Some x" and a: "list_all (\<lambda>kv. ints_within_limit (snd kv)) kvs"
  from m have "(k, x) \<in> set kvs" by (rule map_of_SomeD)
  with a show ?thesis by (auto simp: list_all_iff)
qed

lemma py_getitem_within_limit:
  "py_getitem v k = Inr x \<Longrightarrow> ints_within_limit v \<Longrightarrow> ints_within_limit x"
  by (cases v) (auto split: option.splits dest: map_of_within_limit)

lemma py_get_within_limit:
  "py_get v k d = Inr x \<Longrightarrow> ints_within_limit v \<Longrightarrow> ints_within_limit d \<Longrightarrow>
   ints_within_limit x"
  by (cases v) (auto split: option.splits dest: map_of_within_limit)

lemma py_iter_within_limit:
  "py_iter v = Inr xs \<Longrightarrow> ints_within_limit v \<Longrightarrow> list_all ints_within_limit xs"
  by (cases v) (auto simp: list_all_iff)

lemma extend_with_within_limit:
  assumes "extend_with r = Inr xs" "ints_within_limit r"
  shows "list_all ints_within_limit xs"
proof (cases "\<exists>kvs. r = PDict kvs \<and> dict_contains kvs ''results''")
  case True
  then obtain kvs where r: "r = PDict kvs" "dict_contains kvs ''results''" by blast
  with assms(1) obtain res where g: "py_getitem r ''results'' = Inr res"
    and i: "py_iter res = Inr xs"
    by (auto simp: extend_with_def split: sum.splits)
  from py_iter_within_limit [OF i py_getitem_within_limit [OF g assms(2)]] show ?thesis .
next
  case False
  with assms(1) have "py_iter r = Inr xs"
    by (auto simp: extend_with_def split: pyval.splits)
  from py_iter_within_limit [OF this assms(2)] show ?thesis .
qed

lemma collect_sources_within_limit:
  "collect_sources rs acc = Inr xs \<Longrightarrow> list_all ints_within_limit rs \<Longrightarrow>
   list_all ints_within_limit acc \<Longrightarrow> list_all ints_within_limit xs"
proof (induction rs arbitrary: acc)
  case Nil
  then show ?case by simp
next
  case (Cons r rs)
  then obtain items where i: "extend_with r = Inr items"
    and c: "collect_sources rs (acc @ items) = Inr xs"
    by (auto split: sum.splits)
  from extend_with_within_limit [OF i] Cons.prems(2) have "list_all ints_within_limit items"
    by simp
  with Cons.IH [OF c] Cons.prems(2,3) show ?case by simp
qed

lemma sources_list_of_within_limit:
  "sources_list_of sr = Inr sl \<Longrightarrow> ints_within_limit sr \<Longrightarrow> ints_within_limit sl"
  using py_getitem_within_limit [of sr "''results''" sl] collect_sources_within_limit [of _ "[]"]
  by (cases sr) (auto simp: sources_list_of_def split: sum.splits)

lemma dedup_loop_subset:
  assumes "dedup_loop ss [] = Inr uniq"
  shows "set (map snd uniq) \<subseteq> set ss"
proof -
  have "map snd uniq = minus_later_duplicates ss"
    using assms dedup_loop_first_seen [OF dedup_loop_Inr_urls [OF assms], of "[]"]
    by (auto simp: comp_def)
  then show ?thesis
    using set_minus_later_duplicates [of ss] by simp
qed

lemma unique_sources_of_within_limit:
  assumes "unique_sources_of sr = Inr sources" "ints_within_limit sr"
  shows "list_all ints_within_limit sources"
proof -
  from assms(1) obtain sl ss uniq where sl: "sources_list_of sr = Inr sl"
    and ss: "py_iter sl = Inr ss" and d: "dedup_loop ss [] = Inr uniq"
    and s: "sources = map snd uniq"
    by (auto simp: unique_sources_of_def split: sum.splits)
  from py_iter_within_limit [OF ss sources_list_of_within_limit [OF sl assms(2)]]
  have "list_all ints_within_limit ss" .
  with dedup_loop_subset [OF d] s show ?thesis
    by (auto simp: list_all_iff)
qed

lemma py_getitem_not_ValueError: "py_getitem v k \<noteq> Inl ValueError"
  by (cases v) (auto split: option.splits)

lemma py_iter_not_ValueError: "py_iter v \<noteq> Inl ValueError"
  by (cases v) auto

lemma py_get_not_ValueError: "py_get v k d \<noteq> Inl ValueError"
  by (cases v) (auto split: option.splits)

lemma extend_with_not_ValueError: "extend_with r \<noteq> Inl ValueError"
  using py_iter_not_ValueError py_getitem_not_ValueError
  by (auto simp: extend_with_def split: pyval.splits sum.splits option.splits)

lemma collect_sources_not_ValueError: "collect_sources rs acc \<noteq> Inl ValueError"
  using extend_with_not_ValueError
  by (induction rs arbitrary: acc) (auto split: sum.splits)

lemma dedup_loop_not_ValueError: "dedup_loop ss acc \<noteq> Inl ValueError"
  using py_getitem_not_ValueError
  by (induction ss arbitrary: acc) (auto split: sum.splits option.splits if_splits)

lemma unique_sources_of_ValueError:
  "unique_sources_of sr = Inl ValueError \<longleftrightarrow> \<not> is_dict sr \<and> \<not> is_list sr"
  using py_getitem_not_ValueError py_iter_not_ValueError dedup_loop_not_ValueError
    collect_sources_not_ValueError
  by (cases sr)
     (auto simp: unique_sources_of_def sources_list_of_def split: sum.splits option.splits)

lemma format_item_not_ValueError:
  "ints_within_limit s \<Longrightarrow> format_item s k \<noteq> Inl ValueError"
proof
  assume w: "ints_within_limit s" and e: "format_item s k = Inl ValueError"
  show False
  proof (cases "py_getitem s k")
    case (Inl err)
    with e py_getitem_not_ValueError [of s k] show False
      by (simp add: format_item_def)
  next
    case (Inr v)
    from py_str_within_limit [OF py_getitem_within_limit [OF Inr w]] Inr e show False
      by (auto simp: format_item_def)
  qed
qed

lemma cut_to_limit_not_ValueError: "cut_to_limit raw l \<noteq> Inl ValueError"
  by (cases raw) (auto simp: cut_to_limit_def truncated_def)

lemma cut_to_limit_within_limit:
  "cut_to_limit raw l = Inr r \<Longrightarrow> ints_within_limit raw \<Longrightarrow> ints_within_limit r"
  by (cases raw) (auto simp: cut_to_limit_def truncated_def split: if_splits)

lemma limited_raw_content_not_ValueError:
  assumes "ints_within_limit s"
  shows "snd (limited_raw_content mt s) \<noteq> Inl ValueError"
  using py_get_not_ValueError [of s "''raw_content''" "PStr []"]
    format_item_not_ValueError [OF assms, of "''url''"]
    cut_to_limit_not_ValueError
  by (auto simp: limited_raw_content_def Let_def split: sum.splits)

lemma limited_raw_content_within_limit:
  assumes "limited_raw_content mt s = (printed, Inr raw)" "ints_within_limit s"
  shows "ints_within_limit raw"
proof -
  have d: "ints_within_limit (PStr [])" by simp
  show ?thesis
    using assms(1) py_get_within_limit [OF _ assms(2) d, of "''raw_content''"]
      cut_to_limit_within_limit
    by (auto simp: limited_raw_content_def Let_def split: sum.splits if_splits)
qed

lemma raw_content_line_not_ValueError:
  assumes "int_within_limit mt" "ints_within_limit raw"
  shows "raw_content_line mt raw \<noteq> Inl ValueError"
  using str_of_int_cases [of mt] py_str_within_limit [OF assms(2)] assms(1)
  by (auto simp: raw_content_line_def)

lemma format_source_not_ValueError:
  assumes "ints_within_limit s" "inc \<longrightarrow> int_within_limit mt"
  shows "snd (format_source mt inc s) \<noteq> Inl ValueError"
proof (cases inc)
  case False
  then show ?thesis
    using format_item_not_ValueError [OF assms(1)]
    by (auto simp: format_source_def Let_def split: sum.splits)
next
  case True
  obtain printed r where l: "limited_raw_content mt s = (printed, r)"
    by (cases "limited_raw_content mt s")
  have r: "r \<noteq> Inl ValueError"
    using limited_raw_content_not_ValueError [OF assms(1), of mt] l by simp
  have "raw_content_line mt raw \<noteq> Inl ValueError" if "r = Inr raw" for raw
    using raw_content_line_not_ValueError [of mt raw]
      limited_raw_content_within_limit [OF _ assms(1), of mt printed raw] l that assms(2) True
    by simp
  with r True show ?thesis
    using format_item_not_ValueError [OF assms(1)]
    by (auto simp: format_source_def Let_def l split: sum.splits)
qed

lemma format_loop_not_ValueError:
  assumes "list_all ints_within_limit ss" "inc \<longrightarrow> int_within_limit mt"
  shows "snd (format_loop mt inc ss ftext out) \<noteq> Inl ValueError"
  using assms(1)
proof (induction ss arbitrary: ftext out)
  case Nil
  then show ?case by simp
next
  case (Cons s ss)
  then have s: "snd (format_source mt inc s) \<noteq> Inl ValueError"
    using format_source_not_ValueError [OF _ assms(2), of s] by simp
  from Cons have "snd (format_loop mt inc ss ftext' out') \<noteq> Inl ValueError" for ftext' out'
    by simp
  with s show ?case
    by (auto split: sum.splits prod.splits)
qed

lemma neither_dict_nor_list_raises:
  assumes "\<not> is_dict sr" "\<not> is_list sr"
  shows "deduplicate_and_format_sources sr mt inc = ([], Inl ValueError)"
  using assms unique_sources_of_ValueError [of sr]
  by (simp add: deduplicate_and_format_sources_def)

lemma ValueError_only_for_shape:
  assumes "ints_within_limit sr" "inc \<longrightarrow> int_within_limit mt"
    and "snd (deduplicate_and_format_sources sr mt inc) = Inl ValueError"
  shows "\<not> is_dict sr \<and> \<not> is_list sr"
proof (cases "unique_sources_of sr")
  case (Inl e)
  with assms(3) show ?thesis
    using unique_sources_of_ValueError [of sr]
    by (auto simp: deduplicate_and_format_sources_def)
next
  case (Inr sources)
  from format_loop_not_ValueError [OF unique_sources_of_within_limit [OF Inr assms(1)] assms(2)]
  have "snd (format_loop mt inc sources ''Sources:\<newline>\<newline>'' []) \<noteq> Inl ValueError" .
  with assms(3) Inr show ?thesis
    by (auto simp: deduplicate_and_format_sources_def split: sum.splits prod.splits)
qed

lemma has_str_format_item:
  "has_str fields k \<Longrightarrow> \<exists>s. map_of fields k = Some (PStr s) \<and> format_item (PDict fields) k = Inr s"
  by (auto simp: has_str_def format_item_def split: option.splits elim: is_str.elims)

lemma well_formed_record_url:
  "well_formed_record inc r \<Longrightarrow> \<exists>u. py_getitem r ''url'' = Inr u \<and> hashable u"
  by (auto simp: well_formed_record_def split: pyval.splits dest!: has_str_format_item)

lemma str_or_none_limited:
  assumes "format_item (PDict fields) ''url'' = Inr u"
    and "case map_of fields ''raw_content'' of None \<Rightarrow> True | Some raw \<Rightarrow> str_or_none raw"
  shows "\<exists>printed s. limited_raw_content mt (PDict fields) = (printed, Inr (PStr s))"
proof (cases "map_of fields ''raw_content''")
  case None
  then show ?thesis
    by (simp add: limited_raw_content_def cut_to_limit_def truncated_def)
next
  case (Some raw)
  with assms(2) have "str_or_none raw" by simp
  then show ?thesis
    using Some assms(1)
    by (cases raw) (auto simp: limited_raw_content_def cut_to_limit_def truncated_def Let_def)
qed

lemma well_formed_record_format:
  assumes "well_formed_record inc r" "inc \<longrightarrow> int_within_limit mt"
  shows "\<exists>w b. format_source mt inc r = (w, Inr b)"
proof -
  from assms(1) obtain fields where r: "r = PDict fields"
    and h: "has_str fields ''title''" "has_str fields ''url''" "has_str fields ''content''"
    and raw: "inc \<longrightarrow> (case map_of fields ''raw_content'' of None \<Rightarrow> True | Some raw \<Rightarrow> str_or_none raw)"
    by (auto simp: well_formed_record_def split: pyval.splits)
  from h [THEN has_str_format_item] obtain t u c where
    f: "format_item (PDict fields) ''title'' = Inr t" "format_item (PDict fields) ''url'' = Inr u"
      "format_item (PDict fields) ''content'' = Inr c"
    by blast
  show ?thesis
  proof (cases inc)
    case True
    with raw str_or_none_limited [OF f(2), of mt] obtain printed s
      where l: "limited_raw_content mt (PDict fields) = (printed, Inr (PStr s))" by blast
    from True assms(2) str_of_int_cases [of mt] obtain budget where "str_of_int mt = Inr budget"
      by auto
    with True f l show ?thesis by (simp add: r format_source_def raw_content_line_def)
  next
    case False
    with f show ?thesis by (simp add: r format_source_def)
  qed
qed

lemma extend_with_valid:
  assumes "collection inc r \<or> record_sequence inc r"
  shows "\<exists>items. extend_with r = Inr items \<and> list_all (well_formed_record inc) items"
  using assms
  by (auto simp: collection_def record_sequence_def extend_with_def dict_contains_def
      split: pyval.splits option.splits)

lemma collect_sources_valid:
  assumes "list_all (\<lambda>r. collection inc r \<or> record_sequence inc r) rs"
    and "list_all (well_formed_record inc) acc"
  shows "\<exists>ss. collect_sources rs acc = Inr ss \<and> list_all (well_formed_record inc) ss"
  using assms
proof (induction rs arbitrary: acc)
  case Nil
  then show ?case by simp
next
  case (Cons r rs)
  then obtain items where i: "extend_with r = Inr items" "list_all (well_formed_record inc) items"
    using extend_with_valid [of inc r] by auto
  have "list_all (well_formed_record inc) (acc @ items)"
    using Cons.prems(2) i(2) by simp
  from Cons.IH [OF _ this] Cons.prems(1) i(1) show ?case by simp
qed

lemma sources_list_of_valid:
  assumes "valid_shape inc sr"
  shows "\<exists>ss. sources_list_of sr = Inr (PList ss) \<and> list_all (well_formed_record inc) ss"
proof (cases sr)
  case (PDict kvs)
  with assms show ?thesis
    by (auto simp: valid_shape_def collection_def record_sequence_def sources_list_of_def
        split: option.splits pyval.splits)
next
  case (PList rs)
  with assms have "list_all (\<lambda>r. collection inc r \<or> record_sequence inc r) rs"
    by (simp add: valid_shape_def)
  from collect_sources_valid [OF this, of "[]"] PList show ?thesis
    by (auto simp: sources_list_of_def)
qed (use assms in \<open>simp_all add: valid_shape_def\<close>)

lemma valid_shape_returns:
  assumes "valid_shape inc sr" "inc \<longrightarrow> int_within_limit mt"
  shows "\<exists>printed s. deduplicate_and_format_sources sr mt inc = (printed, Inr s)"
proof -
  from sources_list_of_valid [OF assms(1)] obtain ss
    where ss: "sources_list_of sr = Inr (PList ss)" "list_all (well_formed_record inc) ss"
    by blast
  have urls: "\<forall>s\<in>set ss. \<exists>u. py_getitem s ''url'' = Inr u \<and> hashable u"
    using ss(2) well_formed_record_url by (auto simp: list_all_iff)
  have u: "unique_sources_of sr = Inr (minus_later_duplicates ss)"
    by (simp add: unique_sources_of_def ss(1) dedup_loop_first_seen [OF urls, of "[]"] comp_def)
  have "\<forall>s\<in>set (minus_later_duplicates ss).
          format_source mt inc s = (fst (format_source mt inc s),
                                    Inr (projr (snd (format_source mt inc s))))"
  proof
    fix s assume "s \<in> set (minus_later_duplicates ss)"
    then have "well_formed_record inc s"
      using set_minus_later_duplicates [of ss] ss(2) by (auto simp: list_all_iff)
    from well_formed_record_format [OF this assms(2)]
    show "format_source mt inc s = (fst (format_source mt inc s),
                                    Inr (projr (snd (format_source mt inc s))))"
      by auto
  qed
  from format_loop_blocks [OF this, of "''Sources:\<newline>\<newline>''" "[]"] show ?thesis
    by (simp add: deduplicate_and_format_sources_def u)
qed

subsection \<open>Writes to the store\<close>

lemma take_list_extend: "n \<le> a \<Longrightarrow> take n (list_extend h a items) = take n h"
  by (simp add: list_extend_def split: option.splits sobj.splits)

lemma length_list_extend: "length (list_extend h a items) = length h"
  by (simp add: list_extend_def split: option.splits sobj.splits)

lemma take_dict_setitem: "n \<le> a \<Longrightarrow> take n (dict_setitem h a k v) = take n h"
  by (simp add: dict_setitem_def split: option.splits sobj.splits)

lemma length_dict_setitem: "length (dict_setitem h a k v) = length h"
  by (simp add: dict_setitem_def split: option.splits sobj.splits)

lemma st_collect_sources_frame:
  "n \<le> a \<Longrightarrow> take n (fst (st_collect_sources h a rs)) = take n h
     \<and> length (fst (st_collect_sources h a rs)) = length h"
  by (induction rs arbitrary: h)
     (simp_all add: take_list_extend length_list_extend split: sum.splits)

lemma st_dedup_loop_frame:
  "n \<le> a \<Longrightarrow> take n (fst (st_dedup_loop h a ss)) = take n h
     \<and> length (fst (st_dedup_loop h a ss)) = length h"
  by (induction ss arbitrary: h)
     (simp_all add: take_dict_setitem length_dict_setitem split: sum.splits)

lemma st_collect_sources_unchanged:
  assumes "st_collect_sources h a rs = (h', r)" "n \<le> a"
  shows "take n h' = take n h" "length h' = length h"
  using st_collect_sources_frame [OF assms(2), of h rs] assms(1) by simp_all

lemma st_dedup_loop_unchanged:
  assumes "st_dedup_loop h a ss = (h', r)" "n \<le> a"
  shows "take n h' = take n h" "length h' = length h"
  using st_dedup_loop_frame [OF assms(2), of h ss] assms(1) by simp_all

lemma st_sources_list_of_frame:
  assumes "st_sources_list_of h sr = (h1, r)"
  shows "take (length h) h1 = h" "length h \<le> length h1"
proof -
  have "take (length h) h1 = h \<and> length h \<le> length h1"
  proof (cases "\<exists>a rs. sr = SRef a \<and> obj_at h a = Some (SList rs)")
    case True
    then obtain a rs where sr: "sr = SRef a" "obj_at h a = Some (SList rs)" by blast
    obtain h2 r2 where c: "st_collect_sources (h @ [SList []]) (length h) rs = (h2, r2)"
      by (cases "st_collect_sources (h @ [SList []]) (length h) rs")
    from st_collect_sources_unchanged [OF c order_refl]
    have "take (length h) h2 = h" "length h2 = Suc (length h)" by simp_all
    moreover have "h1 = h2"
      using assms sr c by (auto simp: st_sources_list_of_def alloc_def split: sum.splits)
    ultimately show ?thesis by simp
  next
    case False
    then have "h1 = h"
      using assms
      by (auto simp: st_sources_list_of_def split: sval.splits option.splits sobj.splits)
    then show ?thesis by simp
  qed
  then show "take (length h) h1 = h" "length h \<le> length h1" by simp_all
qed

subsection \<open>The two embeddings agree\<close>

lemma represents_PList:
  "represents h v (PList ps) \<longleftrightarrow>
   (\<exists>a xs. v = SRef a \<and> obj_at h a = Some (SList xs) \<and> list_all2 (represents h) xs ps)"
  by (auto split: sval.splits option.splits sobj.splits)

lemma represents_PDict:
  "represents h v (PDict kvs) \<longleftrightarrow>
   (\<exists>a skvs. v = SRef a \<and> obj_at h a = Some (SDict skvs) \<and>
      list_all2 (\<lambda>skv kv. fst skv = SStr (fst kv) \<and> represents h (snd skv) (snd kv)) skvs kvs)"
  by (auto split: sval.splits option.splits sobj.splits)

declare represents.simps(4,5) [simp del]

lemma represents_SRef:
  "represents h (SRef a) p \<Longrightarrow> \<exists>obj. obj_at h a = Some obj"
  by (cases p) (auto simp: represents_PList represents_PDict)

lemma obj_at_prefix:
  "take (length h) h' = h \<Longrightarrow> obj_at h a = Some obj \<Longrightarrow> obj_at h' a = Some obj"
  by (metis length_take min_less_iff_conj nth_take obj_at_def option.distinct(1))


lemma represents_prefix:
  assumes sub: "take (length h) h' = h"
  shows "represents h v p \<Longrightarrow> represents h' v p"
proof (induction p arbitrary: v rule: pyval_induct_pairs)
  case (PList ps)
  then obtain a xs where v: "v = SRef a" "obj_at h a = Some (SList xs)"
    and l: "list_all2 (represents h) xs ps"
    by (auto simp: represents_PList)
  have "list_all2 (represents h') xs ps"
    using l by (rule list.rel_mono_strong) (use PList.IH in auto)
  then show ?case
    using v obj_at_prefix [OF sub v(2)] by (auto simp: represents_PList)
next
  case (PDict kvs)
  then obtain a skvs where v: "v = SRef a" "obj_at h a = Some (SDict skvs)"
    and l: "list_all2 (\<lambda>skv kv. fst skv = SStr (fst kv) \<and> represents h (snd skv) (snd kv)) skvs kvs"
    by (auto simp: represents_PDict)
  have "list_all2 (\<lambda>skv kv. fst skv = SStr (fst kv) \<and> represents h' (snd skv) (snd kv)) skvs kvs"
    using l
  proof (rule list.rel_mono_strong)
    fix skv kv
    assume "kv \<in> set kvs" "fst skv = SStr (fst kv) \<and> represents h (snd skv) (snd kv)"
    then show "fst skv = SStr (fst kv) \<and> represents h' (snd skv) (snd kv)"
      using PDict.IH [of "fst kv" "snd kv" "snd skv"] by simp
  qed
  then show ?case
    using v obj_at_prefix [OF sub v(2)] by (auto simp: represents_PDict)
qed simp_all

lemma represents_functional:
  "represents h v p \<Longrightarrow> represents h v q \<Longrightarrow> p = q"
proof (induction p arbitrary: v q rule: pyval_induct_pairs)
  case PNone
  then show ?case by (cases q) (auto simp: represents_PList represents_PDict)
next
  case (PInt i)
  then show ?case by (cases q) (auto simp: represents_PList represents_PDict)
next
  case (PStr s)
  then show ?case by (cases q) (auto simp: represents_PList represents_PDict)
next
  case (PList ps)
  then obtain a xs where v: "v = SRef a" "obj_at h a = Some (SList xs)"
    and l: "list_all2 (represents h) xs ps"
    by (auto simp: represents_PList)
  from PList.prems(2) v obtain qs where q: "q = PList qs" and l': "list_all2 (represents h) xs qs"
    by (cases q) (auto simp: represents_PList represents_PDict)
  have "ps = qs"
    using l l' PList.IH
  proof (induction xs ps arbitrary: qs rule: list_all2_induct)
    case Nil
    then show ?case by simp
  next
    case (Cons x xs p ps)
    from Cons.prems(1) obtain q' qs' where qs: "qs = q' # qs'" "represents h x q'"
      "list_all2 (represents h) xs qs'"
      by (cases qs) auto
    have "p = q'" using Cons.prems(2) [of p x q'] Cons.hyps(1) qs(2) by simp
    moreover have "ps = qs'" using Cons.IH [OF qs(3)] Cons.prems(2) by simp
    ultimately show ?case using qs(1) by simp
  qed
  with q show ?case by simp
next
  case (PDict kvs)
  then obtain a skvs where v: "v = SRef a" "obj_at h a = Some (SDict skvs)"
    and l: "list_all2 (\<lambda>skv kv. fst skv = SStr (fst kv) \<and> represents h (snd skv) (snd kv)) skvs kvs"
    by (auto simp: represents_PDict)
  from PDict.prems(2) v obtain qs where q: "q = PDict qs"
    and l': "list_all2 (\<lambda>skv kv. fst skv = SStr (fst kv) \<and> represents h (snd skv) (snd kv)) skvs qs"
    by (cases q) (auto simp: represents_PList represents_PDict)
  have "kvs = qs"
    using l l' PDict.IH
  proof (induction skvs kvs arbitrary: qs rule: list_all2_induct)
    case Nil
    then show ?case by simp
  next
    case (Cons skv skvs kv kvs)
    from Cons.prems(1) obtain q' qs' where qs: "qs = q' # qs'"
      "fst skv = SStr (fst q') \<and> represents h (snd skv) (snd q')"
      "list_all2 (\<lambda>skv kv. fst skv = SStr (fst kv) \<and> represents h (snd skv) (snd kv)) skvs qs'"
      by (cases qs) auto
    have "snd kv = snd q'"
      using Cons.prems(2) [of "fst kv" "snd kv" "snd skv" "snd q'"] Cons.hyps(1) qs(2)
      by simp
    moreover have "fst kv = fst q'" using Cons.hyps(1) qs(2) by simp
    ultimately have "kv = q'" by (simp add: prod_eq_iff)
    moreover have "kvs = qs'" using Cons.IH [OF qs(3)] Cons.prems(2) by auto
    ultimately show ?case using qs(1) by simp
  qed
  with q show ?case by simp
qed

lemma map_eq_list_all2:
  "list_all2 R xs ys \<Longrightarrow> (\<And>x y. x \<in> set xs \<Longrightarrow> y \<in> set ys \<Longrightarrow> R x y \<Longrightarrow> f x = g y)
   \<Longrightarrow> map f xs = map g ys"
  by (induction xs ys rule: list_all2_induct) auto

lemma size_PList_member: "p \<in> set ps \<Longrightarrow> size p < size (PList ps)"
  by (induction ps) auto

lemma size_PDict_member: "(k, p) \<in> set kvs \<Longrightarrow> size p < size (PDict kvs)"
  by (induction kvs) auto

lemma st_repr_represents:
  "represents h v p \<Longrightarrow>
   (\<forall>a\<in>set active. \<forall>q. represents h (SRef a) q \<longrightarrow> size p < size q) \<Longrightarrow>
   st_repr h active v = py_repr p"
proof (induction p arbitrary: v active rule: pyval_induct_pairs)
  case (PList ps)
  from PList.prems(1) obtain a xs where v: "v = SRef a" "obj_at h a = Some (SList xs)"
    and l: "list_all2 (represents h) xs ps"
    by (auto simp: represents_PList)
  have fresh: "a \<notin> set active"
  proof
    assume "a \<in> set active"
    with PList.prems v(1) have "size (PList ps) < size (PList ps)" by blast
    then show False by simp
  qed
  have "map (st_repr h (a # active)) xs = map py_repr ps"
    using l
  proof (rule map_eq_list_all2)
    fix x p assume xp: "x \<in> set xs" "p \<in> set ps" "represents h x p"
    have "\<forall>a'\<in>set (a # active). \<forall>q. represents h (SRef a') q \<longrightarrow> size p < size q"
    proof (intro ballI allI impI)
      fix a' q assume a': "a' \<in> set (a # active)" and q: "represents h (SRef a') q"
      show "size p < size q"
      proof (cases "a' = a")
        case True
        with q PList.prems(1) v(1) have "q = PList ps"
          using represents_functional by blast
        then show ?thesis using size_PList_member [OF xp(2)] by simp
      next
        case False
        with a' have "a' \<in> set active" by simp
        with PList.prems(2) q have "size (PList ps) < size q" by blast
        with size_PList_member [OF xp(2)] show ?thesis by simp
      qed
    qed
    from PList.IH [OF xp(2) xp(3) this] show "st_repr h (a # active) x = py_repr p" .
  qed
  then show ?case
    using v fresh by simp
next
  case (PDict kvs)
  from PDict.prems(1) obtain a skvs where v: "v = SRef a" "obj_at h a = Some (SDict skvs)"
    and l: "list_all2 (\<lambda>skv kv. fst skv = SStr (fst kv) \<and> represents h (snd skv) (snd kv)) skvs kvs"
    by (auto simp: represents_PDict)
  have fresh: "a \<notin> set active"
  proof
    assume "a \<in> set active"
    with PDict.prems v(1) have "size (PDict kvs) < size (PDict kvs)" by blast
    then show False by simp
  qed
  have "map (\<lambda>kv. case st_repr h (a # active) (fst kv) of
                    Inl e \<Rightarrow> Inl e
                  | Inr key \<Rightarrow>
                      (case st_repr h (a # active) (snd kv) of
                         Inl e \<Rightarrow> Inl e
                       | Inr val \<Rightarrow> Inr (key @ '': '' @ val))) skvs
      = map (\<lambda>kv. case py_repr (snd kv) of
                    Inl e \<Rightarrow> Inl e
                  | Inr val \<Rightarrow> Inr (repr_str (fst kv) @ '': '' @ val)) kvs"
    using l
  proof (rule map_eq_list_all2)
    fix skv kv assume xp: "skv \<in> set skvs" "kv \<in> set kvs"
      "fst skv = SStr (fst kv) \<and> represents h (snd skv) (snd kv)"
    have mem: "(fst kv, snd kv) \<in> set kvs" using xp(2) by simp
    have "\<forall>a'\<in>set (a # active). \<forall>q. represents h (SRef a') q \<longrightarrow> size (snd kv) < size q"
    proof (intro ballI allI impI)
      fix a' q assume a': "a' \<in> set (a # active)" and q: "represents h (SRef a') q"
      show "size (snd kv) < size q"
      proof (cases "a' = a")
        case True
        with q PDict.prems(1) v(1) have "q = PDict kvs"
          using represents_functional by blast
        then show ?thesis using size_PDict_member [OF mem] by simp
      next
        case False
        with a' have "a' \<in> set active" by simp
        with PDict.prems(2) q have "size (PDict kvs) < size q" by blast
        with size_PDict_member [OF mem] show ?thesis by simp
      qed
    qed
    from PDict.IH [OF mem _ this, of "snd skv"] xp(3)
    show "(case st_repr h (a # active) (fst skv) of
             Inl e \<Rightarrow> Inl e
           | Inr key \<Rightarrow>
               (case st_repr h (a # active) (snd skv) of
                  Inl e \<Rightarrow> Inl e
                | Inr val \<Rightarrow> Inr (key @ '': '' @ val)))
        = (case py_repr (snd kv) of
             Inl e \<Rightarrow> Inl e
           | Inr val \<Rightarrow> Inr (repr_str (fst kv) @ '': '' @ val))"
      by simp
  qed
  then show ?case
    using v fresh by simp
qed simp_all

lemma st_str_represents: "represents h v p \<Longrightarrow> st_str h v = py_str p"
  using st_repr_represents [of h v p "[]"]
  by (cases p) (auto simp: represents_PList represents_PDict)

lemma map_of_represents:
  "list_all2 (\<lambda>skv kv. fst skv = SStr (fst kv) \<and> R (snd skv) (snd kv)) skvs kvs \<Longrightarrow>
   rel_option R (map_of skvs (SStr k)) (map_of kvs k)"
  by (induction skvs kvs rule: list_all2_induct) auto

lemma st_getitem_represents:
  assumes "represents h v p" "take (length h) h' = h"
  shows "rel_sum (=) (represents h) (st_getitem h' v k) (py_getitem p k)"
proof (cases p)
  case (PList ps)
  with assms(1) obtain a xs where "v = SRef a" "obj_at h a = Some (SList xs)"
    by (auto simp: represents_PList)
  with obj_at_prefix [OF assms(2) this(2)] PList show ?thesis
    by (simp add: st_getitem_def)
next
  case (PDict kvs)
  with assms(1) obtain a skvs where v: "v = SRef a" "obj_at h a = Some (SDict skvs)"
    and l: "list_all2 (\<lambda>skv kv. fst skv = SStr (fst kv) \<and> represents h (snd skv) (snd kv)) skvs kvs"
    by (auto simp: represents_PDict)
  from map_of_represents [OF l, of k] v obj_at_prefix [OF assms(2) v(2)] PDict show ?thesis
    by (auto simp: st_getitem_def elim!: option.rel_cases)
qed (use assms(1) in \<open>simp_all add: st_getitem_def\<close>)

lemma st_get_represents:
  assumes "represents h v p" "take (length h) h' = h" "represents h d dp"
  shows "rel_sum (=) (represents h) (st_get h' v k d) (py_get p k dp)"
proof (cases p)
  case (PList ps)
  with assms(1) obtain a xs where "v = SRef a" "obj_at h a = Some (SList xs)"
    by (auto simp: represents_PList)
  with obj_at_prefix [OF assms(2) this(2)] PList show ?thesis
    by (simp add: st_get_def)
next
  case (PDict kvs)
  with assms(1) obtain a skvs where v: "v = SRef a" "obj_at h a = Some (SDict skvs)"
    and l: "list_all2 (\<lambda>skv kv. fst skv = SStr (fst kv) \<and> represents h (snd skv) (snd kv)) skvs kvs"
    by (auto simp: represents_PDict)
  from map_of_represents [OF l, of k] v obj_at_prefix [OF assms(2) v(2)] PDict assms(3)
  show ?thesis
    by (auto simp: st_get_def elim!: option.rel_cases)
qed (use assms(1) in \<open>simp_all add: st_get_def\<close>)

lemma st_iter_represents:
  assumes "represents h v p" "take (length h) h' = h"
  shows "rel_sum (=) (list_all2 (represents h)) (st_iter h' v) (py_iter p)"
proof (cases p)
  case (PList ps)
  with assms(1) obtain a xs where "v = SRef a" "obj_at h a = Some (SList xs)"
    "list_all2 (represents h) xs ps"
    by (auto simp: represents_PList)
  with obj_at_prefix [OF assms(2) this(2)] PList show ?thesis
    by (simp add: st_iter_def)
next
  case (PDict kvs)
  with assms(1) obtain a skvs where v: "v = SRef a" "obj_at h a = Some (SDict skvs)"
    and l: "list_all2 (\<lambda>skv kv. fst skv = SStr (fst kv) \<and> represents h (snd skv) (snd kv)) skvs kvs"
    by (auto simp: represents_PDict)
  have "list_all2 (represents h) (map fst skvs) (map (\<lambda>kv. PStr (fst kv)) kvs)"
    using l by (induction skvs kvs rule: list_all2_induct) auto
  with v obj_at_prefix [OF assms(2) v(2)] PDict show ?thesis
    by (simp add: st_iter_def)
next
  case (PStr s)
  have "list_all2 (represents h) (map (\<lambda>c. SStr [c]) s) (map (\<lambda>c. PStr [c]) s)"
    by (induction s) auto
  with PStr assms(1) show ?thesis by (simp add: st_iter_def)
qed (use assms(1) in \<open>simp_all add: st_iter_def\<close>)

lemma st_len_represents:
  assumes "represents h v p" "take (length h) h' = h"
  shows "st_len h' v = py_len p"
proof (cases p)
  case (PList ps)
  with assms(1) obtain a xs where "v = SRef a" "obj_at h a = Some (SList xs)"
    "list_all2 (represents h) xs ps"
    by (auto simp: represents_PList)
  with obj_at_prefix [OF assms(2) this(2)] PList show ?thesis
    by (simp add: st_len_def list_all2_lengthD)
next
  case (PDict kvs)
  with assms(1) obtain a skvs where v: "v = SRef a" "obj_at h a = Some (SDict skvs)"
    and l: "list_all2 (\<lambda>skv kv. fst skv = SStr (fst kv) \<and> represents h (snd skv) (snd kv)) skvs kvs"
    by (auto simp: represents_PDict)
  with obj_at_prefix [OF assms(2) v(2)] PDict show ?thesis
    by (simp add: st_len_def list_all2_lengthD)
qed (use assms(1) in \<open>simp_all add: st_len_def\<close>)

lemma st_hashable_represents: "represents h v p \<Longrightarrow> st_hashable v = hashable p"
  by (cases p) (auto simp: represents_PList represents_PDict)

lemma hashable_represents_eq:
  "represents h v p \<Longrightarrow> represents h v' p' \<Longrightarrow> hashable p \<Longrightarrow> hashable p' \<Longrightarrow>
   (v = v') = (p = p')"
  by (cases p; cases p') auto

lemma st_str_represents_prefix:
  "represents h v p \<Longrightarrow> take (length h) h' = h \<Longrightarrow> st_str h' v = py_str p"
  using represents_prefix st_str_represents by blast

lemma st_extend_items_represents:
  assumes "represents h v p" "take (length h) h' = h"
  shows "rel_sum (=) (list_all2 (represents h)) (st_extend_items h' v) (extend_with p)"
proof (cases p)
  case (PDict kvs)
  with assms(1) obtain a skvs where v: "v = SRef a" "obj_at h a = Some (SDict skvs)"
    and l: "list_all2 (\<lambda>skv kv. fst skv = SStr (fst kv) \<and> represents h (snd skv) (snd kv)) skvs kvs"
    by (auto simp: represents_PDict)
  note o = obj_at_prefix [OF assms(2) v(2)]
  note m = map_of_represents [OF l, of "''results''"]
  show ?thesis
  proof (cases "map_of kvs ''results''")
    case None
    with m have "map_of skvs (SStr ''results'') = None" by auto
    with None v o PDict st_iter_represents [OF assms] show ?thesis
      by (simp add: st_extend_items_def extend_with_def dict_contains_def)
  next
    case (Some res)
    with m obtain sres where s: "map_of skvs (SStr ''results'') = Some sres" "represents h sres res"
      by (auto elim: option.rel_cases)
    with Some v o PDict st_iter_represents [OF s(2) assms(2)] show ?thesis
      by (simp add: st_extend_items_def extend_with_def dict_contains_def st_getitem_def)
  qed
next
  case (PList ps)
  with assms(1) obtain a xs where v: "v = SRef a" "obj_at h a = Some (SList xs)"
    by (auto simp: represents_PList)
  with obj_at_prefix [OF assms(2) v(2)] PList st_iter_represents [OF assms] show ?thesis
    by (simp add: st_extend_items_def extend_with_def)
qed (use assms(1) st_iter_represents [OF assms] in \<open>simp_all add: st_extend_items_def extend_with_def\<close>)

lemma obj_at_update: "obj_at h a = Some obj \<Longrightarrow> obj_at (h[a := obj']) a = Some obj'"
  by (simp add: obj_at_def split: if_splits)

lemma st_collect_sources_represents:
  assumes "list_all2 (represents h) rs rs_p"
    and "take (length h) h' = h" "length h \<le> sl"
    and "obj_at h' sl = Some (SList acc_s)" "list_all2 (represents h) acc_s acc_p"
  shows "\<exists>h'' r. st_collect_sources h' sl rs = (h'', r) \<and> take (length h) h'' = h \<and>
           (case collect_sources rs_p acc_p of
              Inl e \<Rightarrow> r = Inl e
            | Inr ss \<Rightarrow> r = Inr () \<and>
                (\<exists>xs. obj_at h'' sl = Some (SList xs) \<and> list_all2 (represents h) xs ss))"
  using assms
proof (induction rs rs_p arbitrary: h' acc_s acc_p rule: list_all2_induct)
  case Nil
  then show ?case by auto
next
  case (Cons r rs rp rs_p)
  note e = st_extend_items_represents [OF Cons.hyps(1) Cons.prems(1), unfolded rel_sum.simps]
  show ?case
  proof (cases "extend_with rp")
    case (Inl err)
    with e have "st_extend_items h' r = Inl err" by auto
    with Inl Cons.prems(1) show ?thesis by simp
  next
    case (Inr items_p)
    with e obtain items where i: "st_extend_items h' r = Inr items"
      "list_all2 (represents h) items items_p" by auto
    let ?h = "list_extend h' sl items"
    have h: "?h = h'[sl := SList (acc_s @ items)]"
      using Cons.prems(3) by (simp add: list_extend_def)
    have 1: "take (length h) ?h = h"
      using take_list_extend [OF Cons.prems(2), of h' items] Cons.prems(1) by simp
    have 2: "obj_at ?h sl = Some (SList (acc_s @ items))"
      unfolding h using Cons.prems(3) by (rule obj_at_update)
    have 3: "list_all2 (represents h) (acc_s @ items) (acc_p @ items_p)"
      using Cons.prems(4) i(2) by (rule list_all2_appendI)
    from Cons.IH [OF 1 Cons.prems(2) 2 3] i(1) Inr show ?thesis by simp
  qed
qed

lemma map_of_keys_represents:
  assumes "list_all2 (\<lambda>skv kv. represents h (fst skv) (fst kv) \<and> represents h (snd skv) (snd kv))
             skvs kvs"
    and "\<forall>kv\<in>set kvs. hashable (fst kv)" "represents h k kp" "hashable kp"
  shows "(map_of skvs k = None) = (map_of kvs kp = None)"
  using assms(1,2)
proof (induction skvs kvs rule: list_all2_induct)
  case Nil
  then show ?case by simp
next
  case (Cons skv skvs kv kvs)
  have "(fst skv = k) = (fst kv = kp)"
    using hashable_represents_eq [of h "fst skv" "fst kv" k kp] Cons.hyps(1) Cons.prems assms(3,4)
    by simp
  with Cons show ?case by (cases skv; cases kv) auto
qed

lemma st_dedup_loop_represents:
  assumes "list_all2 (represents h) ss ss_p"
    and "take (length h) h' = h" "length h \<le> us"
    and "obj_at h' us = Some (SDict skvs)"
    and "list_all2 (\<lambda>skv kv. represents h (fst skv) (fst kv) \<and> represents h (snd skv) (snd kv))
           skvs uniq"
    and "\<forall>kv\<in>set uniq. hashable (fst kv)"
  shows "\<exists>h'' r. st_dedup_loop h' us ss = (h'', r) \<and> take (length h) h'' = h \<and>
           (case dedup_loop ss_p uniq of
              Inl e \<Rightarrow> r = Inl e
            | Inr uniq' \<Rightarrow> r = Inr () \<and>
                (\<exists>skvs'. obj_at h'' us = Some (SDict skvs') \<and>
                   list_all2 (\<lambda>skv kv. represents h (fst skv) (fst kv)
                                \<and> represents h (snd skv) (snd kv)) skvs' uniq'))"
  using assms
proof (induction ss ss_p arbitrary: h' skvs uniq rule: list_all2_induct)
  case Nil
  then show ?case by auto
next
  case (Cons s ss sp ss_p)
  note g = st_getitem_represents [OF Cons.hyps(1) Cons.prems(1), of "''url''", unfolded rel_sum.simps]
  show ?case
  proof (cases "py_getitem sp ''url''")
    case (Inl err)
    with g have "st_getitem h' s ''url'' = Inl err" by auto
    with Inl Cons.prems(1) show ?thesis by simp
  next
    case (Inr url_p)
    with g obtain url where u: "st_getitem h' s ''url'' = Inr url" "represents h url url_p"
      by auto
    note hs = st_hashable_represents [OF u(2)]
    show ?thesis
    proof (cases "hashable url_p")
      case False
      with hs u(1) Inr Cons.prems(1) show ?thesis by simp
    next
      case True
      note m = map_of_keys_represents [OF Cons.prems(4) Cons.prems(5) u(2) True]
      show ?thesis
      proof (cases "map_of uniq url_p = None")
        case present: False
        with m have "st_contains h' us url"
          using Cons.prems(3) by (simp add: st_contains_def)
        then have 1: "st_dedup_loop h' us (s # ss) = st_dedup_loop h' us ss"
          using u(1) hs True by simp
        have 2: "dedup_loop (sp # ss_p) uniq = dedup_loop ss_p uniq"
          using Inr True present by auto
        show ?thesis
          unfolding 1 2 by (rule Cons.IH [OF Cons.prems])
      next
        case absent: True
        with m have c: "\<not> st_contains h' us url" "map_of skvs url = None"
          using Cons.prems(3) by (simp_all add: st_contains_def)
        let ?h = "dict_setitem h' us url s"
        have h: "?h = h'[us := SDict (skvs @ [(url, s)])]"
          using Cons.prems(3) c(2) by (simp add: dict_setitem_def)
        have 1: "take (length h) ?h = h"
          using take_dict_setitem [OF Cons.prems(2), of h' url s] Cons.prems(1) by simp
        have 2: "obj_at ?h us = Some (SDict (skvs @ [(url, s)]))"
          unfolding h using Cons.prems(3) by (rule obj_at_update)
        have 3: "list_all2 (\<lambda>skv kv. represents h (fst skv) (fst kv) \<and> represents h (snd skv) (snd kv))
                   (skvs @ [(url, s)]) (uniq @ [(url_p, sp)])"
          using Cons.prems(4) u(2) Cons.hyps(1) by (intro list_all2_appendI) simp_all
        have 4: "\<forall>kv\<in>set (uniq @ [(url_p, sp)]). hashable (fst kv)"
          using Cons.prems(5) True by simp
        have 5: "st_dedup_loop h' us (s # ss) = st_dedup_loop ?h us ss"
          using u(1) hs True c(1) by simp
        have 6: "dedup_loop (sp # ss_p) uniq = dedup_loop ss_p (uniq @ [(url_p, sp)])"
          using Inr True absent by simp
        show ?thesis
          unfolding 5 6 by (rule Cons.IH [OF 1 Cons.prems(2) 2 3 4])
      qed
    qed
  qed
qed

lemma represents_SNone: "represents h v p \<Longrightarrow> (v = SNone) = (p = PNone)"
  by (cases p) (auto simp: represents_PList represents_PDict)

lemma st_truncated_represents:
  assumes "represents h v p"
  shows "rel_sum (=) (represents h) (st_truncated v k) (truncated p k)"
  using assms
  by (cases p) (auto simp: st_truncated_def truncated_def represents_PList represents_PDict)

lemma st_format_item_represents:
  assumes "represents h v p" "take (length h) h' = h"
  shows "st_format_item h' v k = format_item p k"
proof -
  note g = st_getitem_represents [OF assms, of k, unfolded rel_sum.simps]
  show ?thesis
  proof (cases "py_getitem p k")
    case (Inl e)
    with g show ?thesis by (auto simp: st_format_item_def format_item_def)
  next
    case (Inr x)
    with g obtain y where y: "st_getitem h' v k = Inr y" "represents h y x" by auto
    with Inr st_str_represents_prefix [OF y(2) assms(2)] show ?thesis
      by (simp add: st_format_item_def format_item_def)
  qed
qed

lemma st_cut_to_limit_represents:
  assumes "represents h v p" "take (length h) h' = h"
  shows "rel_sum (=) (represents h) (st_cut_to_limit h' v l) (cut_to_limit p l)"
  using st_len_represents [OF assms] st_truncated_represents [OF assms(1), of l] assms(1)
  by (auto simp: st_cut_to_limit_def cut_to_limit_def split: sum.splits)

lemma st_limited_raw_content_represents:
  assumes "represents h v p" "take (length h) h' = h"
  shows "rel_prod (=) (rel_sum (=) (represents h))
           (st_limited_raw_content h' mt v) (limited_raw_content mt p)"
proof -
  have d: "represents h (SStr []) (PStr [])" by simp
  note g = st_get_represents [OF assms d, of "''raw_content''", unfolded rel_sum.simps]
  note u = st_format_item_represents [OF assms, of "''url''"]
  show ?thesis
  proof (cases "py_get p ''raw_content'' (PStr [])")
    case (Inl e)
    with g have "st_get h' v ''raw_content'' (SStr []) = Inl e" by auto
    with Inl show ?thesis
      by (simp add: st_limited_raw_content_def limited_raw_content_def)
  next
    case (Inr got_p)
    with g obtain got where got: "st_get h' v ''raw_content'' (SStr []) = Inr got"
      "represents h got got_p" by auto
    show ?thesis
    proof (cases "got_p = PNone")
      case False
      with represents_SNone [OF got(2)] have "got \<noteq> SNone" by simp
      with False Inr got(1) st_cut_to_limit_represents [OF got(2) assms(2), of "mt * 4"]
      show ?thesis
        by (simp add: st_limited_raw_content_def limited_raw_content_def Let_def)
    next
      case True
      with represents_SNone [OF got(2)] have "got = SNone" by simp
      with True Inr got(1) u st_cut_to_limit_represents [OF d assms(2), of "mt * 4"]
      show ?thesis
        by (simp add: st_limited_raw_content_def limited_raw_content_def Let_def
            split: sum.splits)
    qed
  qed
qed

lemma st_raw_content_line_represents:
  assumes "represents h v p" "take (length h) h' = h"
  shows "st_raw_content_line h' mt v = raw_content_line mt p"
  unfolding st_raw_content_line_def raw_content_line_def
    st_str_represents_prefix [OF assms] ..

lemma st_format_source_represents:
  assumes "represents h v p" "take (length h) h' = h"
  shows "st_format_source h' mt inc v = format_source mt inc p"
proof -
  note items = st_format_item_represents [OF assms]
  obtain printed r where l: "limited_raw_content mt p = (printed, r)"
    by (cases "limited_raw_content mt p")
  with st_limited_raw_content_represents [OF assms, of mt]
  obtain r' where l': "st_limited_raw_content h' mt v = (printed, r')"
    and rr: "rel_sum (=) (represents h) r' r"
    by (cases "st_limited_raw_content h' mt v") auto
  have tail: "(case r' of
                 Inl e \<Rightarrow> (printed, Inl e)
               | Inr raw_content \<Rightarrow>
                   (case st_raw_content_line h' mt raw_content of
                      Inl e \<Rightarrow> (printed, Inl e)
                    | Inr line \<Rightarrow> (printed, Inr (block @ line))))
            = (case r of
                 Inl e \<Rightarrow> (printed, Inl e)
               | Inr raw_content \<Rightarrow>
                   (case raw_content_line mt raw_content of
                      Inl e \<Rightarrow> (printed, Inl e)
                    | Inr line \<Rightarrow> (printed, Inr (block @ line))))" for block
    using rr by (cases rule: rel_sum.cases)
      (simp_all add: st_raw_content_line_represents [OF _ assms(2)])
  show ?thesis
    by (simp add: st_format_source_def format_source_def items l l' tail Let_def
        split: sum.splits)
qed

lemma st_format_loop_represents:
  assumes "list_all2 (represents h) ss ss_p" "take (length h) h' = h"
  shows "st_format_loop h' mt inc ss ftext printed = format_loop mt inc ss_p ftext printed"
  using assms(1)
proof (induction ss ss_p arbitrary: ftext printed rule: list_all2_induct)
  case Nil
  then show ?case by simp
next
  case (Cons s ss sp ss_p)
  then show ?case
    by (simp add: st_format_source_represents [OF Cons.hyps(1) assms(2)]
        split: sum.splits prod.splits)
qed

lemma st_sources_list_of_represents:
  assumes "represents h v p"
  shows "\<exists>h1 r. st_sources_list_of h v = (h1, r) \<and> take (length h) h1 = h \<and>
           (case sources_list_of p of
              Inl e \<Rightarrow> r = Inl e
            | Inr sl_p \<Rightarrow> \<exists>sl. r = Inr sl \<and> represents h1 sl sl_p)"
proof (cases p)
  case (PDict kvs)
  with assms obtain a skvs where v: "v = SRef a" "obj_at h a = Some (SDict skvs)"
    by (auto simp: represents_PDict)
  from st_getitem_represents [OF assms, of h "''results''"] v PDict show ?thesis
    by (auto simp: st_sources_list_of_def sources_list_of_def split: sum.splits
        elim: rel_sum.cases)
next
  case (PList ps)
  with assms obtain a rs where v: "v = SRef a" "obj_at h a = Some (SList rs)"
    and l: "list_all2 (represents h) rs ps"
    by (auto simp: represents_PList)
  let ?h1 = "h @ [SList []]"
  have o: "obj_at ?h1 (length h) = Some (SList [])"
    by (simp add: obj_at_def)
  from st_collect_sources_represents [OF l, of ?h1 "length h" "[]" "[]"] o
  obtain h2 r where c: "st_collect_sources ?h1 (length h) rs = (h2, r)"
    and p: "take (length h) h2 = h"
    and r: "case collect_sources ps [] of
              Inl e \<Rightarrow> r = Inl e
            | Inr ss \<Rightarrow> r = Inr () \<and>
                (\<exists>xs. obj_at h2 (length h) = Some (SList xs) \<and> list_all2 (represents h) xs ss)"
    by auto
  show ?thesis
  proof (cases "collect_sources ps []")
    case (Inl e)
    with r c p v PList show ?thesis
      by (simp add: st_sources_list_of_def sources_list_of_def alloc_def)
  next
    case (Inr ss)
    with r obtain xs where xs: "r = Inr ()" "obj_at h2 (length h) = Some (SList xs)"
      "list_all2 (represents h) xs ss" by auto
    have "list_all2 (represents h2) xs ss"
      using xs(3) by (rule list_all2_mono) (rule represents_prefix [OF p])
    with xs(2) have "represents h2 (SRef (length h)) (PList ss)"
      by (simp add: represents_PList)
    with Inr xs(1) c p v PList show ?thesis
      by (simp add: st_sources_list_of_def sources_list_of_def alloc_def)
  qed
qed (use assms in \<open>simp_all add: st_sources_list_of_def sources_list_of_def\<close>)

text \<open>On every input of the first embedding, held in whatever way in a store, the second
  embedding prints the same lines and returns the same string or raises the same
  exception.\<close>

lemma store_model_agrees:
  assumes "represents h v p"
  shows "snd (st_deduplicate_and_format_sources h v mt inc) =
         deduplicate_and_format_sources p mt inc"
proof -
  from st_sources_list_of_represents [OF assms]
  obtain h1 r where s: "st_sources_list_of h v = (h1, r)"
    and r: "case sources_list_of p of
              Inl e \<Rightarrow> r = Inl e
            | Inr sl_p \<Rightarrow> \<exists>sl. r = Inr sl \<and> represents h1 sl sl_p"
    by blast
  show ?thesis
  proof (cases "sources_list_of p")
    case (Inl e)
    with r s show ?thesis
      by (simp add: st_deduplicate_and_format_sources_def deduplicate_and_format_sources_def
          unique_sources_of_def)
  next
    case (Inr sl_p)
    with r obtain sl where sl: "r = Inr sl" "represents h1 sl sl_p" by auto
    let ?h2 = "h1 @ [SDict []]"
    have p2: "take (length h1) ?h2 = h1" by simp
    note i = st_iter_represents [OF sl(2) p2, unfolded rel_sum.simps]
    show ?thesis
    proof (cases "py_iter sl_p")
      case (Inl e)
      with i have "st_iter ?h2 sl = Inl e" by auto
      with Inl Inr sl(1) s show ?thesis
        by (simp add: st_deduplicate_and_format_sources_def deduplicate_and_format_sources_def
            unique_sources_of_def alloc_def)
    next
      case sources: (Inr ss_p)
      with i obtain ss where ss: "st_iter ?h2 sl = Inr ss" "list_all2 (represents h1) ss ss_p"
        by auto
      have o: "obj_at ?h2 (length h1) = Some (SDict [])"
        by (simp add: obj_at_def)
      from st_dedup_loop_represents [OF ss(2) p2 order_refl o, of "[]"]
      obtain h3 r3 where d: "st_dedup_loop ?h2 (length h1) ss = (h3, r3)"
        and p3: "take (length h1) h3 = h1"
        and r3: "case dedup_loop ss_p [] of
              Inl e \<Rightarrow> r3 = Inl e
            | Inr uniq \<Rightarrow> r3 = Inr () \<and>
                (\<exists>skvs. obj_at h3 (length h1) = Some (SDict skvs) \<and>
                   list_all2 (\<lambda>skv kv. represents h1 (fst skv) (fst kv)
                                \<and> represents h1 (snd skv) (snd kv)) skvs uniq)"
        by auto
      show ?thesis
      proof (cases "dedup_loop ss_p []")
        case (Inl e)
        with r3 d ss(1) sources Inr sl(1) s show ?thesis
          by (simp add: st_deduplicate_and_format_sources_def deduplicate_and_format_sources_def
              unique_sources_of_def alloc_def)
      next
        case uniq: (Inr uniq)
        with r3 obtain skvs where u: "r3 = Inr ()" "obj_at h3 (length h1) = Some (SDict skvs)"
          "list_all2 (\<lambda>skv kv. represents h1 (fst skv) (fst kv)
                        \<and> represents h1 (snd skv) (snd kv)) skvs uniq"
          by auto
        have vals: "list_all2 (represents h1) (dict_values h3 (length h1)) (map snd uniq)"
          using u(3) by (simp add: dict_values_def u(2) list_all2_conv_all_nth)
        note f = st_format_loop_represents [OF vals p3, of mt inc "''Sources:\<newline>\<newline>''" "[]"]
        from f u(1) uniq d ss(1) sources Inr sl(1) s show ?thesis
          by (simp add: st_deduplicate_and_format_sources_def deduplicate_and_format_sources_def
              unique_sources_of_def alloc_def split: sum.splits prod.splits)
      qed
    qed
  qed
qed


section \<open>The properties\<close>

text \<open>
  C1. When two records of the flattened record sequence of an input, whichever of the
  two shapes it has, have the same url, the later one is dropped entirely: the
  function prints and returns exactly what it does on an input whose record sequence
  lacks that record. When the earlier of the two is the first record with that url, it
  is the one and only source kept for the url. On the specification's example, records
  titled A and B with the url \<^verbatim>\<open>u1\<close>, the output is the one block of A.
\<close>

theorem later_duplicate_dropped:
  assumes "sources_list_of search_response = Inr (PList (xs @ r1 # ys @ r2 # zs))"
    and "sources_list_of search_response' = Inr (PList (xs @ r1 # ys @ zs))"
    and "py_getitem r1 ''url'' = Inr u"
    and "py_getitem r2 ''url'' = Inr u"
  shows "deduplicate_and_format_sources search_response mt inc =
         deduplicate_and_format_sources search_response' mt inc
       \<and> ((\<forall>x\<in>set xs. py_getitem x ''url'' \<noteq> Inr u) \<longrightarrow>
            (\<forall>sources. unique_sources_of search_response = Inr sources \<longrightarrow>
               filter (\<lambda>s. py_getitem s ''url'' = Inr u) sources = [r1]))
       \<and> deduplicate_and_format_sources
           (PDict [(''results'', PList [PDict [(''title'', PStr ''A''), (''url'', PStr ''u1''), (''content'', PStr ''c1'')],
                                        PDict [(''title'', PStr ''B''), (''url'', PStr ''u1''), (''content'', PStr ''c2'')]])]) mt False
         = ([], Inr ''Sources:\<newline>\<newline>Source A:\<newline>===\<newline>URL: u1\<newline>===\<newline>Most relevant content from source: c1\<newline>==='')"
proof (intro conjI impI allI)
  show "deduplicate_and_format_sources
           (PDict [(''results'', PList [PDict [(''title'', PStr ''A''), (''url'', PStr ''u1''), (''content'', PStr ''c1'')],
                                        PDict [(''title'', PStr ''B''), (''url'', PStr ''u1''), (''content'', PStr ''c2'')]])]) mt False
         = ([], Inr ''Sources:\<newline>\<newline>Source A:\<newline>===\<newline>URL: u1\<newline>===\<newline>Most relevant content from source: c1\<newline>==='')"
    by code_simp
next
  have "dedup_loop ((xs @ r1 # ys) @ r2 # zs) [] = dedup_loop ((xs @ r1 # ys) @ zs) []"
    by (rule dedup_loop_drop_later [OF assms(4)]) (use assms(3) in auto)
  then have "unique_sources_of search_response = unique_sources_of search_response'"
    by (simp add: unique_sources_of_flat [OF assms(1)] unique_sources_of_flat [OF assms(2)])
  then show "deduplicate_and_format_sources search_response mt inc =
         deduplicate_and_format_sources search_response' mt inc"
    by (simp add: deduplicate_and_format_sources_def)
next
  fix sources
  assume first: "\<forall>x\<in>set xs. py_getitem x ''url'' \<noteq> Inr u"
    and ok: "unique_sources_of search_response = Inr sources"
  let ?l = "xs @ r1 # ys @ r2 # zs"
  from ok obtain uniq where d: "dedup_loop ?l [] = Inr uniq" and s: "sources = map snd uniq"
    by (auto simp: unique_sources_of_flat [OF assms(1)] split: sum.splits)
  have "sources = minus_later_duplicates ?l"
    using d s dedup_loop_first_seen [OF dedup_loop_Inr_urls [OF d], of "[]"]
    by (auto simp: comp_def)
  then show "filter (\<lambda>s. py_getitem s ''url'' = Inr u) sources = [r1]"
    by (simp only: filter_minus_later_duplicates first_with_url [OF first assms(3)])
qed

theorem later_duplicate_dropped_witness:
  "deduplicate_and_format_sources
     (PList [PDict [(''results'', PList [source_A])], PDict [(''results'', PList [source_C, source_B])]]) 10 False
   = deduplicate_and_format_sources
     (PList [PDict [(''results'', PList [source_A])], PDict [(''results'', PList [source_C])]]) 10 False
   \<and> unique_sources_of
        (PList [PDict [(''results'', PList [source_A])], PDict [(''results'', PList [source_C, source_B])]])
       = Inr [source_A, source_C]
   \<and> filter (\<lambda>s. py_getitem s ''url'' = Inr (PStr ''u1'')) [source_A, source_C] = [source_A]"
proof -
  let ?sr = "PList [PDict [(''results'', PList [source_A])], PDict [(''results'', PList [source_C, source_B])]]"
  let ?sr' = "PList [PDict [(''results'', PList [source_A])], PDict [(''results'', PList [source_C])]]"
  have u: "unique_sources_of ?sr = Inr [source_A, source_C]"
    by code_simp
  have f: "sources_list_of ?sr = Inr (PList ([] @ source_A # [source_C] @ source_B # []))"
    by code_simp
  have f': "sources_list_of ?sr' = Inr (PList ([] @ source_A # [source_C] @ []))"
    by code_simp
  note w = later_duplicate_dropped [OF f f', where u = "PStr ''u1''" and mt = 10 and inc = False]
  have 1: "deduplicate_and_format_sources ?sr 10 False = deduplicate_and_format_sources ?sr' 10 False"
    by (rule w [THEN conjunct1]) simp_all
  have 2: "filter (\<lambda>s. py_getitem s ''url'' = Inr (PStr ''u1'')) [source_A, source_C] = [source_A]"
    by (rule w [THEN conjunct2, THEN conjunct1, rule_format, OF _ _ _ u]) simp_all
  from 1 u 2 show ?thesis by blast
qed


text \<open>
  C2, as the code has it. With \<^verbatim>\<open>max_tokens_per_source = 10\<close> and
  \<^verbatim>\<open>include_raw_content\<close> true the character limit is 40: a \<^verbatim>\<open>raw_content\<close> string
  of at most 40 characters is emitted as it is, and a longer one is cut to its first 40
  characters with the marker \<^verbatim>\<open>... [truncated]\<close> appended. This holds for the text
  the loop appends for any such record whose title, url and content \<^verbatim>\<open>str\<close> converts,
  and for the whole output on an input with one record, where the final strip applies.
\<close>

theorem truncation_boundary:
  assumes "map_of fields ''title'' = Some t" and "map_of fields ''url'' = Some u"
    and "map_of fields ''content'' = Some c" and "map_of fields ''raw_content'' = Some (PStr s)"
    and "py_str t = Inr title" and "py_str u = Inr url" and "py_str c = Inr content"
  shows "format_source 10 True (PDict fields) =
           ([], Inr (''Source '' @ title @ '':\<newline>===\<newline>''
             @ ''URL: '' @ url @ ''\<newline>===\<newline>''
             @ ''Most relevant content from source: '' @ content @ ''\<newline>===\<newline>''
             @ ''Full source content limited to 10 tokens: ''
             @ (if length s \<le> 40 then s else take 40 s @ ''... [truncated]'') @ ''\<newline>\<newline>''))
       \<and> (hashable u \<and> map_of kvs ''results'' = Some (PList [PDict fields]) \<longrightarrow>
          deduplicate_and_format_sources (PDict kvs) 10 True =
            ([], Inr (py_strip (''Sources:\<newline>\<newline>''
             @ ''Source '' @ title @ '':\<newline>===\<newline>''
             @ ''URL: '' @ url @ ''\<newline>===\<newline>''
             @ ''Most relevant content from source: '' @ content @ ''\<newline>===\<newline>''
             @ ''Full source content limited to 10 tokens: ''
             @ (if length s \<le> 40 then s else take 40 s @ ''... [truncated]'') @ ''\<newline>\<newline>''))))"
proof -
  have ps: "py_slice_to s 40 = take 40 s"
    by (simp add: py_slice_to_def)
  have f: "format_source 10 True (PDict fields) =
           ([], Inr (''Source '' @ title @ '':\<newline>===\<newline>''
             @ ''URL: '' @ url @ ''\<newline>===\<newline>''
             @ ''Most relevant content from source: '' @ content @ ''\<newline>===\<newline>''
             @ ''Full source content limited to 10 tokens: ''
             @ (if length s \<le> 40 then s else take 40 s @ ''... [truncated]'') @ ''\<newline>\<newline>''))"
    using assms(1-3,5-7)
    by (simp add: format_source_def format_item_def raw_content_line_def
        limited_raw_content_str [OF assms(4)] str_of_int_10 ps)
  show ?thesis
  proof (intro conjI impI)
    show "format_source 10 True (PDict fields) =
           ([], Inr (''Source '' @ title @ '':\<newline>===\<newline>''
             @ ''URL: '' @ url @ ''\<newline>===\<newline>''
             @ ''Most relevant content from source: '' @ content @ ''\<newline>===\<newline>''
             @ ''Full source content limited to 10 tokens: ''
             @ (if length s \<le> 40 then s else take 40 s @ ''... [truncated]'') @ ''\<newline>\<newline>''))"
      by (rule f)
  next
    assume "hashable u \<and> map_of kvs ''results'' = Some (PList [PDict fields])"
    then have "unique_sources_of (PDict kvs) = Inr [PDict fields]"
      using single_source [OF _ assms(2)] by blast
    from single_source_output [OF this f]
    show "deduplicate_and_format_sources (PDict kvs) 10 True =
            ([], Inr (py_strip (''Sources:\<newline>\<newline>''
             @ ''Source '' @ title @ '':\<newline>===\<newline>''
             @ ''URL: '' @ url @ ''\<newline>===\<newline>''
             @ ''Most relevant content from source: '' @ content @ ''\<newline>===\<newline>''
             @ ''Full source content limited to 10 tokens: ''
             @ (if length s \<le> 40 then s else take 40 s @ ''... [truncated]'') @ ''\<newline>\<newline>'')))"
      by simp
  qed
qed

theorem truncation_boundary_witness:
  "deduplicate_and_format_sources (PDict [(''results'', PList [source_A_raw (PStr ''0123456789012345678901234567890123456789'')])]) 10 True
   = ([], Inr (output_A @ ''\<newline>Full source content limited to 10 tokens: 0123456789012345678901234567890123456789''))
   \<and> deduplicate_and_format_sources (PDict [(''results'', PList [source_A_raw (PStr ''0123456789012345678901234567890123456789X'')])]) 10 True
   = ([], Inr (output_A @ ''\<newline>Full source content limited to 10 tokens: 0123456789012345678901234567890123456789... [truncated]''))"
proof -
  note w = truncation_boundary [where t = "PStr ''A''" and u = "PStr ''u1''" and c = "PStr ''c1''"
      and title = "''A''" and url = "''u1''" and content = "''c1''"]
  have "deduplicate_and_format_sources (PDict [(''results'', PList [source_A_raw (PStr ''0123456789012345678901234567890123456789'')])]) 10 True
   = ([], Inr (py_strip (output_A @ ''\<newline>Full source content limited to 10 tokens: 0123456789012345678901234567890123456789\<newline>\<newline>'')))"
    using w [where s = "''0123456789012345678901234567890123456789''"
        and kvs = "[(''results'', PList [source_A_raw (PStr ''0123456789012345678901234567890123456789'')])]",
        THEN conjunct2]
    by simp
  moreover have "deduplicate_and_format_sources (PDict [(''results'', PList [source_A_raw (PStr ''0123456789012345678901234567890123456789X'')])]) 10 True
   = ([], Inr (py_strip (output_A @ ''\<newline>Full source content limited to 10 tokens: 0123456789012345678901234567890123456789... [truncated]\<newline>\<newline>'')))"
    using w [where s = "''0123456789012345678901234567890123456789X''"
        and kvs = "[(''results'', PList [source_A_raw (PStr ''0123456789012345678901234567890123456789X'')])]",
        THEN conjunct2]
    by simp
  moreover have "py_strip (output_A @ ''\<newline>Full source content limited to 10 tokens: 0123456789012345678901234567890123456789\<newline>\<newline>'')
     = output_A @ ''\<newline>Full source content limited to 10 tokens: 0123456789012345678901234567890123456789''"
    by code_simp
  moreover have "py_strip (output_A @ ''\<newline>Full source content limited to 10 tokens: 0123456789012345678901234567890123456789... [truncated]\<newline>\<newline>'')
     = output_A @ ''\<newline>Full source content limited to 10 tokens: 0123456789012345678901234567890123456789... [truncated]''"
    by code_simp
  ultimately show ?thesis by simp
qed

text \<open>C2 as the specification states it does not hold: a \<^verbatim>\<open>raw_content\<close> of exactly 41
  characters is not emitted untouched, it is cut to 40 characters and marked.\<close>

theorem raw_content_41_counterexample:
  "deduplicate_and_format_sources (PDict [(''results'', PList [source_A_raw (PStr ''0123456789012345678901234567890123456789X'')])]) 10 True
   \<noteq> ([], Inr (output_A @ ''\<newline>Full source content limited to 10 tokens: 0123456789012345678901234567890123456789X''))
   \<and> deduplicate_and_format_sources (PDict [(''results'', PList [source_A_raw (PStr ''0123456789012345678901234567890123456789X'')])]) 10 True
   = ([], Inr (output_A @ ''\<newline>Full source content limited to 10 tokens: 0123456789012345678901234567890123456789... [truncated]''))"
  by code_simp


text \<open>
  C3, as the code has it. Take a record whose title, url and content are strings and
  whose \<^verbatim>\<open>raw_content\<close> is absent or \<^verbatim>\<open>None\<close>, \<^verbatim>\<open>include_raw_content\<close> true, and a
  token budget that is not negative and that \<^verbatim>\<open>str\<close> converts (it has at most 4300
  digits). The record gets an empty raw-text block and nothing is raised; the warning
  naming the url is printed when the field is \<^verbatim>\<open>None\<close>, and nothing is printed when
  it is absent.
\<close>

theorem missing_raw_content:
  assumes "map_of fields ''title'' = Some (PStr t)" and "map_of fields ''url'' = Some (PStr u)"
    and "map_of fields ''content'' = Some (PStr c)"
    and "map_of fields ''raw_content'' = None \<or> map_of fields ''raw_content'' = Some PNone"
    and "0 \<le> mt" and "str_of_int mt = Inr budget"
  shows "format_source mt True (PDict fields) =
           ((if map_of fields ''raw_content'' = Some PNone
              then [''Warning: No raw_content found for source '' @ u] else []),
            Inr (''Source '' @ t @ '':\<newline>===\<newline>''
             @ ''URL: '' @ u @ ''\<newline>===\<newline>''
             @ ''Most relevant content from source: '' @ c @ ''\<newline>===\<newline>''
             @ ''Full source content limited to '' @ budget @ '' tokens: '' @ ''\<newline>\<newline>''))
       \<and> (map_of kvs ''results'' = Some (PList [PDict fields]) \<longrightarrow>
          deduplicate_and_format_sources (PDict kvs) mt True =
            ((if map_of fields ''raw_content'' = Some PNone
              then [''Warning: No raw_content found for source '' @ u] else []),
             Inr (py_strip (''Sources:\<newline>\<newline>''
             @ ''Source '' @ t @ '':\<newline>===\<newline>''
             @ ''URL: '' @ u @ ''\<newline>===\<newline>''
             @ ''Most relevant content from source: '' @ c @ ''\<newline>===\<newline>''
             @ ''Full source content limited to '' @ budget @ '' tokens: '' @ ''\<newline>\<newline>''))))"
proof -
  have url: "format_item (PDict fields) ''url'' = Inr u"
    using assms(2) by (simp add: format_item_def)
  have l: "limited_raw_content mt (PDict fields) = ((if map_of fields ''raw_content'' = Some PNone
              then [''Warning: No raw_content found for source '' @ u] else []), Inr (PStr []))"
    using assms(4)
    by (auto simp: limited_raw_content_absent [OF _ assms(5)]
        limited_raw_content_none [OF _ url assms(5)])
  have f: "format_source mt True (PDict fields) =
           ((if map_of fields ''raw_content'' = Some PNone
              then [''Warning: No raw_content found for source '' @ u] else []),
            Inr (''Source '' @ t @ '':\<newline>===\<newline>''
             @ ''URL: '' @ u @ ''\<newline>===\<newline>''
             @ ''Most relevant content from source: '' @ c @ ''\<newline>===\<newline>''
             @ ''Full source content limited to '' @ budget @ '' tokens: '' @ ''\<newline>\<newline>''))"
    using assms(1-3,6)
    by (simp add: format_source_def format_item_def raw_content_line_def l del: append_assoc)
  show ?thesis
  proof (intro conjI impI)
    show "format_source mt True (PDict fields) =
           ((if map_of fields ''raw_content'' = Some PNone
              then [''Warning: No raw_content found for source '' @ u] else []),
            Inr (''Source '' @ t @ '':\<newline>===\<newline>''
             @ ''URL: '' @ u @ ''\<newline>===\<newline>''
             @ ''Most relevant content from source: '' @ c @ ''\<newline>===\<newline>''
             @ ''Full source content limited to '' @ budget @ '' tokens: '' @ ''\<newline>\<newline>''))"
      by (rule f)
  next
    assume "map_of kvs ''results'' = Some (PList [PDict fields])"
    then have "unique_sources_of (PDict kvs) = Inr [PDict fields]"
      using single_source [OF _ assms(2)] by simp
    from single_source_output [OF this f]
    show "deduplicate_and_format_sources (PDict kvs) mt True =
            ((if map_of fields ''raw_content'' = Some PNone
              then [''Warning: No raw_content found for source '' @ u] else []),
             Inr (py_strip (''Sources:\<newline>\<newline>''
             @ ''Source '' @ t @ '':\<newline>===\<newline>''
             @ ''URL: '' @ u @ ''\<newline>===\<newline>''
             @ ''Most relevant content from source: '' @ c @ ''\<newline>===\<newline>''
             @ ''Full source content limited to '' @ budget @ '' tokens: '' @ ''\<newline>\<newline>'')))"
      by simp
  qed
qed

theorem missing_raw_content_witness:
  "deduplicate_and_format_sources (PDict [(''results'', PList [source_A_raw PNone])]) 10 True
   = ([''Warning: No raw_content found for source u1''],
      Inr (output_A @ ''\<newline>Full source content limited to 10 tokens:''))"
proof -
  have "deduplicate_and_format_sources (PDict [(''results'', PList [source_A_raw PNone])]) 10 True
   = ([''Warning: No raw_content found for source u1''],
      Inr (py_strip (output_A @ ''\<newline>Full source content limited to 10 tokens: \<newline>\<newline>'')))"
    using missing_raw_content [where t = "''A''" and u = "''u1''" and c = "''c1''" and mt = 10
          and budget = "''10''"
          and kvs = "[(''results'', PList [source_A_raw PNone])]",
          THEN conjunct2]
    by (simp add: str_of_int_10)
  moreover have "py_strip (output_A @ ''\<newline>Full source content limited to 10 tokens: \<newline>\<newline>'')
     = output_A @ ''\<newline>Full source content limited to 10 tokens:''"
    by code_simp
  ultimately show ?thesis by simp
qed

text \<open>C3 as the specification states it does not hold: for a record without the key
  \<^verbatim>\<open>raw_content\<close> no warning is printed.\<close>

theorem absent_raw_content_counterexample:
  "deduplicate_and_format_sources (PDict [(''results'', PList [source_A])]) 10 True
   = ([], Inr (output_A @ ''\<newline>Full source content limited to 10 tokens:''))
   \<and> fst (deduplicate_and_format_sources (PDict [(''results'', PList [source_A])]) 10 True) = []"
  by code_simp


text \<open>
  C4, as the code has it. The function raises \<^verbatim>\<open>ValueError\<close> whenever
  \<^verbatim>\<open>search_response\<close> is neither a dictionary nor a list. When no integer of more
  than 4300 digits is in \<^verbatim>\<open>search_response\<close> or, with \<^verbatim>\<open>include_raw_content\<close> true,
  is the token budget, it raises \<^verbatim>\<open>ValueError\<close> only then, and on every valid input
  (a dictionary whose \<^verbatim>\<open>results\<close> is a list of well-formed records, or a list of such
  dictionaries and of lists of well-formed records) it returns a string.
\<close>

theorem ValueError_iff_neither_dict_nor_list:
  "(\<not> is_dict search_response \<and> \<not> is_list search_response \<longrightarrow>
      deduplicate_and_format_sources search_response mt inc = ([], Inl ValueError))
   \<and> (ints_within_limit search_response \<and> (inc \<longrightarrow> int_within_limit mt) \<longrightarrow>
        (snd (deduplicate_and_format_sources search_response mt inc) = Inl ValueError
           \<longleftrightarrow> \<not> is_dict search_response \<and> \<not> is_list search_response))
   \<and> (valid_shape inc search_response \<and> (inc \<longrightarrow> int_within_limit mt) \<longrightarrow>
        (\<exists>printed s. deduplicate_and_format_sources search_response mt inc = (printed, Inr s)))"
proof (intro conjI impI)
  assume "\<not> is_dict search_response \<and> \<not> is_list search_response"
  then show "deduplicate_and_format_sources search_response mt inc = ([], Inl ValueError)"
    using neither_dict_nor_list_raises by blast
next
  assume a: "ints_within_limit search_response \<and> (inc \<longrightarrow> int_within_limit mt)"
  show "snd (deduplicate_and_format_sources search_response mt inc) = Inl ValueError
           \<longleftrightarrow> \<not> is_dict search_response \<and> \<not> is_list search_response"
  proof
    assume "snd (deduplicate_and_format_sources search_response mt inc) = Inl ValueError"
    with a show "\<not> is_dict search_response \<and> \<not> is_list search_response"
      using ValueError_only_for_shape [of search_response inc mt] by blast
  next
    assume "\<not> is_dict search_response \<and> \<not> is_list search_response"
    then show "snd (deduplicate_and_format_sources search_response mt inc) = Inl ValueError"
      using neither_dict_nor_list_raises [of search_response mt inc] by simp
  qed
next
  assume "valid_shape inc search_response \<and> (inc \<longrightarrow> int_within_limit mt)"
  then show "\<exists>printed s. deduplicate_and_format_sources search_response mt inc = (printed, Inr s)"
    using valid_shape_returns [of inc search_response mt] by blast
qed

theorem ValueError_iff_neither_dict_nor_list_witness:
  "deduplicate_and_format_sources (PInt 3) 10 True = ([], Inl ValueError)
   \<and> ints_within_limit (PList [PDict [(''results'', PList [source_A])], PList [source_C]])
   \<and> int_within_limit 10
   \<and> snd (deduplicate_and_format_sources
            (PList [PDict [(''results'', PList [source_A])], PList [source_C]]) 10 True)
       \<noteq> Inl ValueError
   \<and> valid_shape True (PList [PDict [(''results'', PList [source_A])], PList [source_C]])
   \<and> (\<exists>printed s. deduplicate_and_format_sources
          (PList [PDict [(''results'', PList [source_A])], PList [source_C]]) 10 True = (printed, Inr s))"
proof -
  let ?sr = "PList [PDict [(''results'', PList [source_A])], PList [source_C]]"
  have v: "valid_shape True ?sr"
    by (simp add: valid_shape_def collection_def record_sequence_def well_formed_record_def
        has_str_def)
  have i: "ints_within_limit ?sr"
    by simp
  have b: "int_within_limit 10"
    by code_simp
  have 1: "deduplicate_and_format_sources (PInt 3) 10 True = ([], Inl ValueError)"
    using ValueError_iff_neither_dict_nor_list [of "PInt 3" 10 True] by simp
  have 2: "snd (deduplicate_and_format_sources ?sr 10 True) \<noteq> Inl ValueError"
    using ValueError_iff_neither_dict_nor_list [of ?sr 10 True] i b by simp
  have 3: "\<exists>printed s. deduplicate_and_format_sources ?sr 10 True = (printed, Inr s)"
    using ValueError_iff_neither_dict_nor_list [of ?sr 10 True] v b by blast
  from 1 i b 2 v 3 show ?thesis by blast
qed

text \<open>C4 as the specification states it does not hold: a list whose element is a bare
  list of records, not a mapping with the key \<^verbatim>\<open>results\<close>, is formatted normally, and
  a dictionary without the key \<^verbatim>\<open>results\<close> raises \<^verbatim>\<open>KeyError\<close>.\<close>

theorem list_of_bare_list_counterexample:
  "deduplicate_and_format_sources (PList [PList [source_A]]) 10 False = ([], Inr output_A)
   \<and> deduplicate_and_format_sources (PDict []) 10 False = ([], Inl KeyError)"
  by code_simp

text \<open>A token budget of more than 4300 digits is an input of valid shape on which the
  function raises \<^verbatim>\<open>ValueError\<close>, at line 67, when it formats its first source with
  \<^verbatim>\<open>include_raw_content\<close> true.\<close>

lemma long_budget_raises:
  assumes "10 ^ int_max_str_digits \<le> \<bar>mt\<bar>"
  shows "deduplicate_and_format_sources (PDict [(''results'', PList [source_A])]) mt True
         = ([], Inl ValueError)"
proof -
  have e: "str_of_int mt = Inl ValueError"
    using assms by (simp add: str_of_int_raises_iff)
  have u: "unique_sources_of (PDict [(''results'', PList [source_A])]) = Inr [source_A]"
    by (simp add: unique_sources_of_def sources_list_of_def)
  have l: "limited_raw_content mt source_A = ([], cut_to_limit (PStr []) (mt * 4))"
    by (simp add: limited_raw_content_def)
  have c: "cut_to_limit (PStr []) (mt * 4) = Inr (PStr []) \<or>
           cut_to_limit (PStr []) (mt * 4) = Inr (PStr ''... [truncated]'')"
    by (simp add: cut_to_limit_def truncated_def py_slice_to_def)
  have "format_source mt True source_A = ([], Inl ValueError)"
    using c by (auto simp: format_source_def format_item_def l raw_content_line_def e)
  then show ?thesis
    by (simp add: deduplicate_and_format_sources_def u)
qed


text \<open>
  C5. For a single-mapping input whose records all have a hashable url, the sources
  that are formatted are the records of \<^verbatim>\<open>results\<close> in their order minus later
  duplicates by url, and the output is the header followed by their blocks in that
  order (stripped at both ends).
\<close>

theorem order_preserved_minus_later_duplicates:
  assumes "map_of kvs ''results'' = Some (PList rs)"
    and "\<forall>r\<in>set rs. \<exists>u. py_getitem r ''url'' = Inr u \<and> hashable u"
    and "\<forall>r\<in>set (minus_later_duplicates rs). format_source mt inc r = (warn r, Inr (block r))"
  shows "unique_sources_of (PDict kvs) = Inr (minus_later_duplicates rs)
       \<and> deduplicate_and_format_sources (PDict kvs) mt inc =
           (concat (map warn (minus_later_duplicates rs)),
            Inr (py_strip (''Sources:\<newline>\<newline>'' @ concat (map block (minus_later_duplicates rs)))))"
proof -
  have u: "unique_sources_of (PDict kvs) = Inr (minus_later_duplicates rs)"
    by (simp add: unique_sources_of_results [OF assms(1)]
        dedup_loop_first_seen [OF assms(2), of "[]"] comp_def)
  show ?thesis
    by (simp add: u deduplicate_and_format_sources_def format_loop_blocks [OF assms(3)])
qed

theorem order_preserved_minus_later_duplicates_witness:
  "deduplicate_and_format_sources (PDict [(''results'', PList [source_A, source_B, source_C])]) 10 False
   = ([], Inr (output_A @ ''\<newline>Source C:\<newline>===\<newline>URL: u2\<newline>===\<newline>Most relevant content from source: c3\<newline>===''))"
proof -
  let ?block = "\<lambda>r. projr (snd (format_source 10 False r))"
  let ?warn = "\<lambda>r. fst (format_source 10 False r)"
  have m: "minus_later_duplicates [source_A, source_B, source_C] = [source_A, source_C]"
    by simp
  have "deduplicate_and_format_sources (PDict [(''results'', PList [source_A, source_B, source_C])]) 10 False
      = (concat (map ?warn (minus_later_duplicates [source_A, source_B, source_C])),
         Inr (py_strip (''Sources:\<newline>\<newline>'' @ concat (map ?block (minus_later_duplicates [source_A, source_B, source_C])))))"
    by (rule order_preserved_minus_later_duplicates [THEN conjunct2])
       (simp_all add: format_source_def format_item_def)
  also have "\<dots> = ([], Inr (output_A @ ''\<newline>Source C:\<newline>===\<newline>URL: u2\<newline>===\<newline>Most relevant content from source: c3\<newline>===''))"
    unfolding m by code_simp
  finally show ?thesis .
qed


text \<open>
  C6. For a collection \<^verbatim>\<open>c\<close>, a mapping with the key \<^verbatim>\<open>results\<close>, and any token
  budget and flag, the one-element list \<^verbatim>\<open>[c]\<close> gives what \<^verbatim>\<open>c\<close> gives: the same
  printed lines and the same returned string or exception.
\<close>

theorem wrapped_equals_unwrapped:
  assumes "map_of kvs ''results'' = Some v"
  shows "deduplicate_and_format_sources (PList [PDict kvs]) mt inc =
         deduplicate_and_format_sources (PDict kvs) mt inc"
proof -
  have "unique_sources_of (PList [PDict kvs]) = unique_sources_of (PDict kvs)"
    using assms
    by (simp add: unique_sources_of_def sources_list_of_def extend_with_def dict_contains_def
        split: sum.splits)
  then show ?thesis
    by (simp add: deduplicate_and_format_sources_def)
qed

theorem wrapped_equals_unwrapped_witness:
  "deduplicate_and_format_sources (PList [PDict [(''results'', PList [source_A, source_B])]]) 10 True
   = deduplicate_and_format_sources (PDict [(''results'', PList [source_A, source_B])]) 10 True"
  by (rule wrapped_equals_unwrapped [where v = "PList [source_A, source_B]"]) simp


text \<open>
  C7. \<^verbatim>\<open>format_sources\<close>, on a mapping whose \<^verbatim>\<open>results\<close> is a sequence of records
  with a title and a url that \<^verbatim>\<open>str\<close> converts, returns the lines \<^verbatim>\<open>* <title> : <url>\<close> of the records,
  one per record in input order and with no deduplication, joined by newlines; on the
  two records X/u1 and Y/u2 it returns exactly \<^verbatim>\<open>* X : u1\n* Y : u2\<close>.
\<close>

theorem format_sources_bullets:
  assumes "map_of kvs ''results'' = Some (PList rs)"
    and "\<forall>r\<in>set rs. py_getitem r ''title'' = Inr (t r) \<and> py_getitem r ''url'' = Inr (u r)"
    and "\<forall>r\<in>set rs. py_str (t r) = Inr (title r) \<and> py_str (u r) = Inr (url r)"
  shows "format_sources (PDict kvs) =
         Inr (py_join ''\<newline>'' (map (\<lambda>r. ''* '' @ title r @ '' : '' @ url r) rs))
       \<and> format_sources (PDict [(''results'', PList [PDict [(''title'', PStr ''X''), (''url'', PStr ''u1'')],
                                                    PDict [(''title'', PStr ''Y''), (''url'', PStr ''u2'')]])])
         = Inr ''* X : u1\<newline>* Y : u2''"
proof
  have items: "\<forall>r\<in>set rs. format_item r ''title'' = Inr (title r) \<and> format_item r ''url'' = Inr (url r)"
    using assms(2,3) by (simp add: format_item_def)
  show "format_sources (PDict kvs) =
         Inr (py_join ''\<newline>'' (map (\<lambda>r. ''* '' @ title r @ '' : '' @ url r) rs))"
    using assms(1) by (simp add: format_sources_def bullet_lines_map [OF items])
next
  show "format_sources (PDict [(''results'', PList [PDict [(''title'', PStr ''X''), (''url'', PStr ''u1'')],
                                                    PDict [(''title'', PStr ''Y''), (''url'', PStr ''u2'')]])])
         = Inr ''* X : u1\<newline>* Y : u2''"
    by code_simp
qed

theorem format_sources_bullets_witness:
  "format_sources (PDict [(''results'', PList [source_P, source_Q])]) = Inr ''* P : u1\<newline>* Q : u1''"
proof -
  let ?t = "\<lambda>r. projr (py_getitem r ''title'')"
  let ?u = "\<lambda>r. projr (py_getitem r ''url'')"
  let ?title = "\<lambda>r. projr (py_str (?t r))"
  let ?url = "\<lambda>r. projr (py_str (?u r))"
  have "format_sources (PDict [(''results'', PList [source_P, source_Q])])
      = Inr (py_join ''\<newline>'' (map (\<lambda>r. ''* '' @ ?title r @ '' : '' @ ?url r) [source_P, source_Q]))"
    by (rule format_sources_bullets [where t = ?t and u = ?u, THEN conjunct1]) simp_all
  also have "\<dots> = Inr ''* P : u1\<newline>* Q : u1''"
    by simp
  finally show ?thesis .
qed


text \<open>
  C8. With \<^verbatim>\<open>include_raw_content\<close> false, \<^verbatim>\<open>max_tokens_per_source\<close> has no influence:
  for any input and any two token budgets the function prints the same lines and
  returns the same string or raises the same exception.
\<close>

theorem max_tokens_unused_without_raw_content:
  "deduplicate_and_format_sources search_response t1 False =
   deduplicate_and_format_sources search_response t2 False"
  by (simp add: deduplicate_and_format_sources_def format_loop_no_raw [of t1 _ _ _ t2]
      split: sum.splits)


text \<open>
  C9. The function does not mutate its input: every object that is in the store before
  the call, so every source record and every collection that holds it, is the same
  after the call, whatever the input, the token budget and the flag, and also when an
  exception is raised. What the function writes, it writes to the two containers it
  creates itself.
\<close>

theorem input_not_mutated:
  "take (length h) (fst (st_deduplicate_and_format_sources h search_response mt inc)) = h"
proof -
  obtain h1 r where s: "st_sources_list_of h search_response = (h1, r)"
    by (cases "st_sources_list_of h search_response")
  note h1 = st_sources_list_of_frame [OF s]
  let ?h2 = "h1 @ [SDict []]"
  have h2: "take (length h) ?h2 = h"
    using h1 by simp
  show ?thesis
  proof (cases r)
    case (Inl e)
    then show ?thesis
      using h1 by (simp add: st_deduplicate_and_format_sources_def s)
  next
    case (Inr sources_list)
    show ?thesis
    proof (cases "st_iter ?h2 sources_list")
      case (Inl e)
      then show ?thesis
        using h2 Inr by (simp add: st_deduplicate_and_format_sources_def s alloc_def)
    next
      case sources: (Inr sources)
      obtain h3 r3 where d: "st_dedup_loop ?h2 (length h1) sources = (h3, r3)"
        by (cases "st_dedup_loop ?h2 (length h1) sources")
      from st_dedup_loop_unchanged (1) [OF d h1(2)] h2 have "take (length h) h3 = h"
        by simp
      then show ?thesis
        using Inr sources d
        by (simp add: st_deduplicate_and_format_sources_def s alloc_def
            split: sum.splits prod.splits)
    qed
  qed
qed

text \<open>On the specification's example, passed as a one-element list: the five objects of
  the input are unchanged, and the store has gained \<^verbatim>\<open>sources_list\<close> and
  \<^verbatim>\<open>unique_sources\<close>.\<close>

lemma store_example:
  "st_deduplicate_and_format_sources
     [SDict [(SStr ''title'', SStr ''A''), (SStr ''url'', SStr ''u1''), (SStr ''content'', SStr ''c1'')],
      SDict [(SStr ''title'', SStr ''B''), (SStr ''url'', SStr ''u1''), (SStr ''content'', SStr ''c2'')],
      SList [SRef 0, SRef 1],
      SDict [(SStr ''results'', SRef 2)],
      SList [SRef 3]] (SRef 4) 10 False
   = ([SDict [(SStr ''title'', SStr ''A''), (SStr ''url'', SStr ''u1''), (SStr ''content'', SStr ''c1'')],
       SDict [(SStr ''title'', SStr ''B''), (SStr ''url'', SStr ''u1''), (SStr ''content'', SStr ''c2'')],
       SList [SRef 0, SRef 1],
       SDict [(SStr ''results'', SRef 2)],
       SList [SRef 3],
       SList [SRef 0, SRef 1],
       SDict [(SStr ''u1'', SRef 0)]],
      [], Inr output_A)"
  by code_simp


text \<open>
  C10. Whenever the function returns a string, the string begins with the header
  \<^verbatim>\<open>Sources:\<close>; for the input \<^verbatim>\<open>{"results": []}\<close> the returned string is exactly
  \<^verbatim>\<open>Sources:\<close>.
\<close>

theorem output_begins_with_header:
  "(\<forall>printed s. deduplicate_and_format_sources search_response mt inc = (printed, Inr s)
      \<longrightarrow> (\<exists>rest. s = ''Sources:'' @ rest))
   \<and> deduplicate_and_format_sources (PDict [(''results'', PList [])]) mt inc = ([], Inr ''Sources:'')"
proof (intro conjI allI impI)
  fix printed s
  assume a: "deduplicate_and_format_sources search_response mt inc = (printed, Inr s)"
  then obtain sources ftext where
    f: "format_loop mt inc sources ''Sources:\<newline>\<newline>'' [] = (printed, Inr ftext)" and s: "s = py_strip ftext"
    by (auto simp: deduplicate_and_format_sources_def split: sum.splits prod.splits)
  from format_loop_prefix [OF f] obtain rest where t: "ftext = ''Sources:'' @ (''\<newline>\<newline>'' @ rest)"
    by auto
  have "s = ''Sources:'' @ rev (dropWhile py_isspace (rev (''\<newline>\<newline>'' @ rest)))"
    unfolding s t by (intro py_strip_prefix) simp_all
  then show "\<exists>rest. s = ''Sources:'' @ rest" by blast
next
  show "deduplicate_and_format_sources (PDict [(''results'', PList [])]) mt inc = ([], Inr ''Sources:'')"
    by (simp add: deduplicate_and_format_sources_def unique_sources_of_def sources_list_of_def
        py_strip_def)
qed

theorem output_begins_with_header_witness:
  "deduplicate_and_format_sources
     (PDict [(''results'', PList [PDict [(''title'', PStr ''A''), (''url'', PStr ''u1''),
                                         (''content'', PStr ''c1'')]])]) 10 False
   = ([], Inr output_A)
   \<and> (\<exists>rest. output_A
          = ''Sources:'' @ rest)"
proof -
  have e: "deduplicate_and_format_sources
     (PDict [(''results'', PList [PDict [(''title'', PStr ''A''), (''url'', PStr ''u1''),
                                         (''content'', PStr ''c1'')]])]) 10 False
   = ([], Inr output_A)"
    by code_simp
  from output_begins_with_header [THEN conjunct1, rule_format, OF e] e show ?thesis
    by simp
qed

end
